theory Spec2Isabelle
  imports Complex_Main "HOL-Library.Word" "HOL-Library.AList"
begin

unbundle bit_operations_syntax

section \<open>PCM codec (utils.ts)\<close>

text \<open>
  Samples are JavaScript numbers. Every arithmetic step of the codec is exact on the
  finite values it handles (a multiplication or division by a power of two, a product of a
  24-bit by a 15-bit significand), so finite samples are modelled as \<open>real\<close>.
  Typed-array elements are machine words: an \<open>Int16Array\<close> element is a \<open>16 word\<close>,
  a \<open>Uint8Array\<close> element an \<open>8 word\<close>.
\<close>

type_synonym byte = "8 word"
type_synonym int16 = "16 word"

datatype error = RangeError | NotSupportedError | IndexSizeError | TypeError

text \<open>ECMAScript's conversion of a finite number to an integer: towards zero.\<close>

definition toInteger :: "real \<Rightarrow> int" where
  "toInteger x = (if x < 0 then \<lceil>x\<rceil> else \<lfloor>x\<rfloor>)"

text \<open>Storing a number into an \<open>Int16Array\<close> or through \<open>DataView.setInt16\<close>/\<open>setUint16\<close>:
  truncate, then keep the low 16 bits.\<close>

definition toInt16 :: "real \<Rightarrow> int16" where
  "toInt16 x = word_of_int (toInteger x)"

definition toUint32 :: "real \<Rightarrow> 32 word" where
  "toUint32 x = word_of_int (toInteger x)"

text \<open>The bytes of a 16-bit and of a 32-bit value in little-endian order, which is how
  \<open>new Uint8Array(int16.buffer)\<close> sees an \<open>Int16Array\<close> and how the \<open>DataView\<close>
  setters write when their last argument is \<open>true\<close>.\<close>

definition bytes16 :: "16 word \<Rightarrow> byte list" where
  "bytes16 w = [ucast w, ucast (drop_bit 8 w)]"

definition bytes32 :: "32 word \<Rightarrow> byte list" where
  "bytes32 w = [ucast w, ucast (drop_bit 8 w), ucast (drop_bit 16 w), ucast (drop_bit 24 w)]"

definition word16_of_bytes :: "byte \<Rightarrow> byte \<Rightarrow> 16 word" where
  "word16_of_bytes lo hi = ucast lo OR push_bit 8 (ucast hi)"

definition word32_of_bytes :: "byte list \<Rightarrow> 32 word" where
  "word32_of_bytes bs =
     ucast (bs ! 0) OR push_bit 8 (ucast (bs ! 1)) OR push_bit 16 (ucast (bs ! 2))
       OR push_bit 24 (ucast (bs ! 3))"

subsection \<open>createBlob\<close>

text \<open>
  \<^verbatim>\<open>int16[i] = data[i] * 32768;\<close> followed by \<^verbatim>\<open>new Uint8Array(int16.buffer)\<close>.
  The result is the byte sequence handed to \<open>encode\<close>; \<open>encode\<close> and \<open>decode\<close> are the
  platform's base64 transport (\<open>btoa\<close>/\<open>atob\<close>) around these bytes.
\<close>

definition createBlob_int16 :: "real list \<Rightarrow> int16 list" where
  "createBlob_int16 data = map (\<lambda>x. toInt16 (x * 32768)) data"

definition createBlob :: "real list \<Rightarrow> byte list" where
  "createBlob data = concat (map bytes16 (createBlob_int16 data))"

subsection \<open>decodeAudioData\<close>

text \<open>\<^verbatim>\<open>new Int16Array(data.buffer)\<close>: a \<open>RangeError\<close> when the byte length is odd.\<close>

fun int16_pairs :: "byte list \<Rightarrow> int16 list" where
  "int16_pairs (lo # hi # bs) = word16_of_bytes lo hi # int16_pairs bs"
| "int16_pairs _ = []"

definition Int16Array :: "byte list \<Rightarrow> error + int16 list" where
  "Int16Array bs = (if odd (length bs) then Inl RangeError else Inr (int16_pairs bs))"

text \<open>\<^verbatim>\<open>dataFloat32[i] = dataInt16[i] / 32768.0\<close>\<close>

definition dataFloat32 :: "int16 list \<Rightarrow> real list" where
  "dataFloat32 ws = map (\<lambda>w. real_of_int (sint w) / 32768) ws"

text \<open>The sample decoding of \<open>decodeAudioData\<close> (its lines between the buffer
  allocation and the channel extraction).\<close>

definition decodeSamples :: "byte list \<Rightarrow> error + real list" where
  "decodeSamples bs = (case Int16Array bs of Inl e \<Rightarrow> Inl e | Inr ws \<Rightarrow> Inr (dataFloat32 ws))"


subsection \<open>AudioBuffer (Web Audio API)\<close>

text \<open>
  The platform's \<open>AudioBuffer\<close>: \<open>length_buf\<close> is its \<open>length\<close> in sample frames, and
  \<open>channelData\<close> holds what \<open>getChannelData\<close> returns for each channel. Sample rates
  are whole numbers of Hz (the engine only uses 48000).
\<close>

record AudioBuffer =
  numberOfChannels :: nat
  length_buf :: nat
  sampleRate :: nat
  channelData :: "real list list"

definition wf_buffer :: "AudioBuffer \<Rightarrow> bool" where
  "wf_buffer b \<longleftrightarrow>
     length (channelData b) = numberOfChannels b \<and>
     list_all (\<lambda>ch. length ch = length_buf b) (channelData b)"

definition duration :: "AudioBuffer \<Rightarrow> real" where
  "duration b = real (length_buf b) / real (sampleRate b)"

text \<open>
  \<open>BaseAudioContext.createBuffer(numberOfChannels, length, sampleRate)\<close>. The length
  argument is an \<open>unsigned long\<close>: the number passed is truncated and reduced modulo
  \<open>2^32\<close>. The platform raises \<open>NotSupportedError\<close> for zero channels and for a zero
  length; the new buffer is silent. (A division by zero in the caller gives \<open>Infinity\<close> or
  \<open>NaN\<close> in JavaScript, both converted to length 0; in HOL \<open>x / 0 = 0\<close>, the same
  length.)
\<close>

definition createBuffer :: "nat \<Rightarrow> real \<Rightarrow> nat \<Rightarrow> error + AudioBuffer" where
  "createBuffer numChannels len rate =
     (if numChannels = 0 \<or> unat (toUint32 len) = 0 then Inl NotSupportedError
      else Inr \<lparr>numberOfChannels = numChannels, length_buf = unat (toUint32 len),
                sampleRate = rate,
                channelData = replicate numChannels (replicate (unat (toUint32 len)) 0)\<rparr>)"

text \<open>\<open>AudioBuffer.copyToChannel(source, channelNumber)\<close>: \<open>IndexSizeError\<close> for a channel
  the buffer does not have; otherwise as many frames as fit are copied from the start.\<close>

definition copyToChannel :: "real list \<Rightarrow> nat \<Rightarrow> AudioBuffer \<Rightarrow> error + AudioBuffer" where
  "copyToChannel source channelNumber b =
     (if channelNumber \<ge> numberOfChannels b then Inl IndexSizeError
      else Inr (b\<lparr>channelData := (channelData b)
                  [channelNumber := take (length_buf b) source
                      @ drop (length source) (channelData b ! channelNumber)]\<rparr>))"

text \<open>\<^verbatim>\<open>dataFloat32.filter((_, index) => index % numChannels === i)\<close>\<close>

definition channelFilter :: "real list \<Rightarrow> nat \<Rightarrow> nat \<Rightarrow> real list" where
  "channelFilter f32 numChannels i =
     map (\<lambda>k. f32 ! k) (filter (\<lambda>k. k mod numChannels = i) [0..<length f32])"

fun extractChannels :: "real list \<Rightarrow> nat \<Rightarrow> nat list \<Rightarrow> AudioBuffer \<Rightarrow> error + AudioBuffer" where
  "extractChannels f32 numChannels [] b = Inr b"
| "extractChannels f32 numChannels (i # is) b =
     (case copyToChannel (channelFilter f32 numChannels i) i b of
        Inl e \<Rightarrow> Inl e
      | Inr b' \<Rightarrow> extractChannels f32 numChannels is b')"

definition decodeAudioData :: "byte list \<Rightarrow> nat \<Rightarrow> nat \<Rightarrow> error + AudioBuffer" where
  "decodeAudioData data rate numChannels =
     (case createBuffer numChannels (real (length data) / 2 / real numChannels) rate of
        Inl e \<Rightarrow> Inl e
      | Inr buffer \<Rightarrow>
          (case decodeSamples data of
             Inl e \<Rightarrow> Inl e
           | Inr f32 \<Rightarrow>
               if numChannels = 0 then copyToChannel f32 0 buffer
               else extractChannels f32 numChannels [0..<numChannels] buffer))"

subsection \<open>audioBufferToWav\<close>

text \<open>A \<open>DataView\<close> over a fresh \<open>ArrayBuffer\<close> is a list of bytes, written by index.
  Every write of \<open>audioBufferToWav\<close> lies inside the view (lemma \<open>wavBytes_length\<close> and the
  offsets below), so the setters' \<open>RangeError\<close> does not arise.\<close>

fun setBytes :: "byte list \<Rightarrow> nat \<Rightarrow> byte list \<Rightarrow> byte list" where
  "setBytes view off [] = view"
| "setBytes view off (b # bs) = setBytes (view[off := b]) (Suc off) bs"

definition writeString :: "byte list \<Rightarrow> nat \<Rightarrow> string \<Rightarrow> byte list" where
  "writeString view off str = setBytes view off (map (\<lambda>c. of_char c) str)"

definition setUint32 :: "byte list \<Rightarrow> nat \<Rightarrow> real \<Rightarrow> byte list" where
  "setUint32 view off x = setBytes view off (bytes32 (toUint32 x))"

definition setUint16 :: "byte list \<Rightarrow> nat \<Rightarrow> real \<Rightarrow> byte list" where
  "setUint16 view off x = setBytes view off (bytes16 (toInt16 x))"

definition setInt16 :: "byte list \<Rightarrow> nat \<Rightarrow> int16 \<Rightarrow> byte list" where
  "setInt16 view off w = setBytes view off (bytes16 w)"

text \<open>\<^verbatim>\<open>sample = Math.max(-1, Math.min(1, channels[j][i]));
sample = sample < 0 ? sample * 0x8000 : sample * 0x7fff;\<close>\<close>

definition clampSample :: "real \<Rightarrow> real" where
  "clampSample x = max (- 1) (min 1 x)"

definition scaleSample :: "real \<Rightarrow> real" where
  "scaleSample s = (if s < 0 then s * 32768 else s * 32767)"

text \<open>A read past the end of a channel gives \<open>undefined\<close>, which becomes \<open>NaN\<close> and is
  stored as 0 by \<open>setInt16\<close>.\<close>

definition sampleAt :: "real list list \<Rightarrow> nat \<Rightarrow> nat \<Rightarrow> real option" where
  "sampleAt channels j i =
     (if j < length channels \<and> i < length (channels ! j) then Some (channels ! j ! i) else None)"

definition pcm16 :: "real option \<Rightarrow> int16" where
  "pcm16 x = (case x of None \<Rightarrow> 0 | Some v \<Rightarrow> toInt16 (scaleSample (clampSample v)))"

definition getChannelData :: "AudioBuffer \<Rightarrow> nat \<Rightarrow> error + real list" where
  "getChannelData b i =
     (if i < numberOfChannels b \<and> i < length (channelData b) then Inr (channelData b ! i)
      else Inl IndexSizeError)"

fun getChannels :: "AudioBuffer \<Rightarrow> nat list \<Rightarrow> error + real list list" where
  "getChannels b [] = Inr []"
| "getChannels b (i # is) =
     (case getChannelData b i of
        Inl e \<Rightarrow> Inl e
      | Inr ch \<Rightarrow> (case getChannels b is of Inl e \<Rightarrow> Inl e | Inr chs \<Rightarrow> Inr (ch # chs)))"

definition wavHeader :: "AudioBuffer \<Rightarrow> byte list \<Rightarrow> byte list" where
  "wavHeader buffer view0 =
     (let numOfChan = numberOfChannels buffer;
          v1 = writeString view0 0 ''RIFF'';
          v2 = setUint32 v1 4 (36 + real (length_buf buffer) * real numOfChan * 2);
          v3 = writeString v2 8 ''WAVE'';
          v4 = writeString v3 12 ''fmt '';
          v5 = setUint32 v4 16 16;
          v6 = setUint16 v5 20 1;
          v7 = setUint16 v6 22 (real numOfChan);
          v8 = setUint32 v7 24 (real (sampleRate buffer));
          v9 = setUint32 v8 28 (real (sampleRate buffer) * 2 * real numOfChan);
          v10 = setUint16 v9 32 (real numOfChan * 2);
          v11 = setUint16 v10 34 16;
          v12 = writeString v11 36 ''data''
      in setUint32 v12 40 (real (length_buf buffer) * real numOfChan * 2))"

definition wavFrame :: "real list list \<Rightarrow> nat \<Rightarrow> nat \<Rightarrow> byte list \<times> nat \<Rightarrow> byte list \<times> nat" where
  "wavFrame channels numOfChan i =
     fold (\<lambda>j (view, offset). (setInt16 view offset (pcm16 (sampleAt channels j i)), offset + 2))
       [0..<numOfChan]"

definition wavData :: "real list list \<Rightarrow> nat \<Rightarrow> nat \<Rightarrow> byte list \<Rightarrow> byte list \<times> nat" where
  "wavData channels numOfChan len view =
     fold (\<lambda>i. wavFrame channels numOfChan i) [0..<len] (view, 44)"

definition audioBufferToWav :: "AudioBuffer \<Rightarrow> error + byte list" where
  "audioBufferToWav buffer =
     (let numOfChan = numberOfChannels buffer;
          len = length_buf buffer * numOfChan * 2 + 44;
          view = wavHeader buffer (replicate len 0)
      in case getChannels buffer [0..<numOfChan] of
           Inl e \<Rightarrow> Inl e
         | Inr channels \<Rightarrow> Inr (fst (wavData channels numOfChan (length_buf buffer) view)))"

section \<open>The playback engine (index.tsx, class PromptDj)\<close>

datatype PlaybackState = stopped | loading | playing | paused

record Prompt =
  promptId :: "string option"
  text' :: string
  weight :: real
  color :: string

text \<open>The fields of an inbound \<open>LiveMusicServerMessage\<close> that the handler reads. A chunk's
  \<open>data\<close> is given as the bytes that \<open>decode\<close> (the platform's \<open>atob\<close>) yields.\<close>

record LiveMusicServerMessage =
  setupComplete :: bool
  filteredPrompt :: "(string \<times> string) option"
  audioChunks :: "byte list list option"

text \<open>Calls into the platform and the remote session, in the order the engine makes
  them.\<close>

datatype effect =
    DecodeAudioData "byte list"
  | SourceStart AudioBuffer real
  | SetTimeoutPlaying
  | SetTimeoutLoadAudio
  | ConsoleLog string
  | Toast string
  | Connect
  | SessionPlay
  | SessionPause
  | SessionStop
  | SessionResetContext
  | SetWeightedPrompts "Prompt list"
  | SetMusicGenerationConfig

text \<open>
  The fields of \<open>PromptDj\<close> that the playback engine reads and writes. Times
  (\<open>audioContext.currentTime\<close>, \<open>nextStartTime\<close>, durations) are JavaScript numbers,
  held as reals; the handler comes twice, with the sums of times taken in the reals and,
  for whole runs, rounded as the platform rounds them. \<open>Date.now()\<close> is a whole number
  of milliseconds. \<open>prompts\<close> is the
  insertion-ordered \<open>Map\<close>; \<open>timerIntervalId\<close> tells whether the interval timer is set;
  \<open>lastCall_setSessionPrompts\<close> is the variable \<open>lastCall\<close> in the closure of the throttled
  \<open>setSessionPrompts\<close>; \<open>effects\<close> records the calls made so far. The audio graph (gain
  ramps, analyser, output node) is left out: no property below depends on it.
\<close>

record PromptDj =
  prompts :: "(string \<times> Prompt) list"
  filteredPrompts :: "string set"
  nextStartTime :: real
  playbackState :: PlaybackState
  recordedChunks :: "AudioBuffer list"
  connectionError :: bool
  timerStartTime :: real
  timerIntervalId :: bool
  elapsedTime :: int
  lastCall_setSessionPrompts :: int
  effects :: "effect list"

definition bufferTime :: real where
  "bufferTime = 2"

definition emit :: "effect \<Rightarrow> PromptDj \<Rightarrow> PromptDj" where
  "emit x s = s\<lparr>effects := effects s @ [x]\<rparr>"

subsection \<open>throttle and setSessionPrompts\<close>

text \<open>\<open>throttle(func, delay)\<close>: the closure variable \<open>lastCall\<close> is passed in and returned;
  \<open>now\<close> is the reading of \<open>Date.now()\<close>.\<close>

definition throttle :: "('s \<Rightarrow> 's) \<Rightarrow> int \<Rightarrow> int \<Rightarrow> int \<times> 's \<Rightarrow> int \<times> 's" where
  "throttle func delay now = (\<lambda>(lastCall, st).
     let timeSinceLastCall = now - lastCall
     in if timeSinceLastCall \<ge> delay then (now, func st) else (lastCall, st))"

definition promptsToSend :: "PromptDj \<Rightarrow> Prompt list" where
  "promptsToSend s =
     filter (\<lambda>p. \<not> (text' p \<in> filteredPrompts s) \<and> weight p \<noteq> 0) (map snd (prompts s))"

text \<open>The throttled function, up to its call of \<open>session.setWeightedPrompts\<close>.\<close>

definition setSessionPrompts_body :: "PromptDj \<Rightarrow> PromptDj" where
  "setSessionPrompts_body s = emit (SetWeightedPrompts (promptsToSend s)) s"

definition setSessionPrompts :: "int \<Rightarrow> PromptDj \<Rightarrow> PromptDj" where
  "setSessionPrompts now s =
     (case throttle setSessionPrompts_body 200 now (lastCall_setSessionPrompts s, s) of
        (lastCall, s') \<Rightarrow> s'\<lparr>lastCall_setSessionPrompts := lastCall\<rparr>)"

text \<open>\<open>handlePromptChanged\<close>: the entry of \<open>promptId\<close> keeps what the spread of the old
  entry gives (its \<open>promptId\<close>, or nothing when there was no entry) and takes the text,
  weight and colour of the event; \<open>Map.set\<close> replaces in place or appends.\<close>

definition handlePromptChanged :: "int \<Rightarrow> string \<times> string \<times> real \<times> string \<Rightarrow> PromptDj \<Rightarrow> PromptDj" where
  "handlePromptChanged now detail s =
     (case detail of (pid, txt, w, col) \<Rightarrow>
        let updatedPrompt =
              \<lparr>promptId = (case map_of (prompts s) pid of None \<Rightarrow> None | Some old \<Rightarrow> promptId old),
               text' = txt, weight = w, color = col\<rparr>;
            newPrompts = AList.update pid updatedPrompt (prompts s)
        in setSessionPrompts now (s\<lparr>prompts := newPrompts\<rparr>))"

subsection \<open>Transport controls\<close>

definition pauseAudio :: "PromptDj \<Rightarrow> PromptDj" where
  "pauseAudio s =
     (let s1 = emit SessionPause s;
          s2 = s1\<lparr>playbackState := paused, nextStartTime := 0\<rparr>
      in if timerIntervalId s2 then s2\<lparr>timerIntervalId := False\<rparr> else s2)"

definition loadAudio :: "PromptDj \<Rightarrow> PromptDj" where
  "loadAudio s =
     (let s1 = s\<lparr>recordedChunks := []\<rparr>;
          s2 = emit SessionPlay s1
      in s2\<lparr>playbackState := loading\<rparr>)"

definition stopAudio :: "PromptDj \<Rightarrow> PromptDj" where
  "stopAudio s =
     (let s1 = emit SessionStop s;
          s2 = s1\<lparr>playbackState := stopped, nextStartTime := 0\<rparr>
      in if timerIntervalId s2 then s2\<lparr>timerIntervalId := False, elapsedTime := 0\<rparr> else s2)"

text \<open>The \<open>catch\<close> branch of the throttled function, run when the session rejects the
  submission, and the \<open>onerror\<close>/\<open>onclose\<close> callbacks of the session.\<close>

definition setSessionPrompts_rejected :: "string \<Rightarrow> PromptDj \<Rightarrow> PromptDj" where
  "setSessionPrompts_rejected msg s = pauseAudio (emit (Toast msg) s)"

definition onerror :: "PromptDj \<Rightarrow> PromptDj" where
  "onerror s =
     emit (Toast ''Connection error, please restart audio.'')
       (stopAudio (s\<lparr>connectionError := True\<rparr>))"

text \<open>\<open>connectToSession\<close> awaits \<open>ai.live.music.connect\<close>; \<open>ok\<close> tells whether that
  promise is fulfilled. A rejection ends the caller (\<open>None\<close>).\<close>

definition connectToSession :: "bool \<Rightarrow> PromptDj \<Rightarrow> PromptDj option" where
  "connectToSession ok s = (if ok then Some (emit Connect s) else None)"

definition handlePlayPause :: "bool \<Rightarrow> int \<Rightarrow> PromptDj \<Rightarrow> PromptDj option" where
  "handlePlayPause ok now s =
     (if playbackState s = playing then Some (pauseAudio s)
      else if playbackState s = paused \<or> playbackState s = stopped then
        (if connectionError s then
           (case connectToSession ok s of
              None \<Rightarrow> None
            | Some s1 \<Rightarrow> Some (loadAudio (setSessionPrompts now s1)))
         else Some (loadAudio s))
      else Some (stopAudio s))"

definition handleReset :: "bool \<Rightarrow> int \<Rightarrow> PromptDj \<Rightarrow> PromptDj option" where
  "handleReset ok now s =
     (case (if connectionError s then
              (case connectToSession ok s of
                 None \<Rightarrow> None
               | Some s1 \<Rightarrow> Some (setSessionPrompts now s1))
            else Some s) of
        None \<Rightarrow> None
      | Some s2 \<Rightarrow>
          let s3 = pauseAudio s2;
              s4 = emit SessionResetContext s3;
              s5 = emit SetMusicGenerationConfig s4;
              s6 = s5\<lparr>recordedChunks := []\<rparr>;
              s7 = (if timerIntervalId s6 then s6\<lparr>timerIntervalId := False\<rparr> else s6);
              s8 = s7\<lparr>timerStartTime := 0, elapsedTime := 0\<rparr>
          in Some (emit SetTimeoutLoadAudio s8))"

subsection \<open>The inbound message handler\<close>

text \<open>The callback armed by \<^verbatim>\<open>setTimeout(..., this.bufferTime * 1000)\<close>; \<open>now\<close> is
  the reading of \<open>audioContext.currentTime\<close>.\<close>

definition leadTimerFired :: "real \<Rightarrow> PromptDj \<Rightarrow> PromptDj" where
  "leadTimerFired now s =
     (let s1 = s\<lparr>playbackState := playing\<rparr>
      in if \<not> timerIntervalId s1 then s1\<lparr>timerStartTime := now, timerIntervalId := True\<rparr>
         else s1)"

text \<open>The handler's code after \<open>await decodeAudioData(...)\<close>, for the decoded
  \<open>audioBuffer\<close>. One reading \<open>now\<close> of \<open>audioContext.currentTime\<close> serves the whole
  synchronous block.\<close>

definition onAudioBuffer :: "real \<Rightarrow> AudioBuffer \<Rightarrow> PromptDj \<Rightarrow> PromptDj" where
  "onAudioBuffer now audioBuffer s =
     (let s1 = (if playbackState s = playing \<or> playbackState s = loading
                then s\<lparr>recordedChunks := recordedChunks s @ [audioBuffer]\<rparr> else s);
          s2 = (if nextStartTime s1 = 0
                then emit SetTimeoutPlaying (s1\<lparr>nextStartTime := now + bufferTime\<rparr>) else s1)
      in if nextStartTime s2 < now then
           (let s3 = emit (ConsoleLog ''under run'') s2;
                s4 = s3\<lparr>playbackState := loading, nextStartTime := 0\<rparr>
            in if timerIntervalId s4 then s4\<lparr>timerIntervalId := False, elapsedTime := 0\<rparr>
               else s4)
         else
           (let s3 = emit (SourceStart audioBuffer (nextStartTime s2)) s2
            in s3\<lparr>nextStartTime := nextStartTime s3 + duration audioBuffer\<rparr>))"

text \<open>\<open>onmessage\<close>. An exception (no first chunk, a failing decode) ends the handler with
  the state reached so far.\<close>

definition onmessage :: "real \<Rightarrow> LiveMusicServerMessage \<Rightarrow> PromptDj \<Rightarrow> PromptDj" where
  "onmessage now e s =
     (let s1 = (if setupComplete e then s\<lparr>connectionError := False\<rparr> else s);
          s2 = (case filteredPrompt e of
                  None \<Rightarrow> s1
                | Some (txt, reason) \<Rightarrow>
                    emit (Toast reason) (s1\<lparr>filteredPrompts := insert txt (filteredPrompts s1)\<rparr>))
      in case audioChunks e of
           None \<Rightarrow> s2
         | Some chunks \<Rightarrow>
             if playbackState s2 = paused \<or> playbackState s2 = stopped then s2
             else (case chunks of
                     [] \<Rightarrow> s2
                   | data # _ \<Rightarrow>
                       (let s3 = emit (DecodeAudioData data) s2
                        in case decodeAudioData data 48000 2 of
                             Inl err \<Rightarrow> s3
                           | Inr audioBuffer \<Rightarrow> onAudioBuffer now audioBuffer s3)))"

subsection \<open>Export of the capture log\<close>






subsection \<open>Arithmetic of JavaScript numbers\<close>

text \<open>
  A finite JavaScript number is an IEEE 754 binary64 value: a real \<open>n * 2 ^ (e - 52)\<close> with
  a whole \<open>n\<close> of magnitude at most \<open>2 ^ 53\<close> and an exponent \<open>e\<close> from -1022 on, which is
  the exponent of the subnormal values too. An addition or a division returns the exact
  result rounded to the nearest such value, a tie going to the even \<open>n\<close>. Here
  \<open>binade x\<close> is the exponent \<open>e\<close> of the values around \<open>x\<close>, \<open>ulp x\<close> is their spacing,
  \<open>toDouble\<close> is the rounding and \<open>fadd\<close> is \<^verbatim>\<open>+\<close> on numbers. The values of the format
  are the fixed points of the rounding. The format ends below \<open>2 ^ 1024\<close>: a result that
  rounds to \<open>2 ^ 1024\<close> or more is \<open>Infinity\<close> on the platform, which \<open>toDouble\<close> does not
  model, so the statements about runs are for cursors below \<open>2 ^ 1024\<close>.
\<close>

definition roundEven :: "real \<Rightarrow> int" where
  "roundEven x =
     (let f = \<lfloor>x\<rfloor>; r = x - real_of_int f
      in if r < 1 / 2 then f else if 1 / 2 < r then f + 1 else if even f then f else f + 1)"

definition binade :: "real \<Rightarrow> int" where
  "binade x = max \<lfloor>log 2 \<bar>x\<bar>\<rfloor> (- 1022)"

definition ulp :: "real \<Rightarrow> real" where
  "ulp x = 2 powr real_of_int (binade x - 52)"

definition toDouble :: "real \<Rightarrow> real" where
  "toDouble x = (if x = 0 then 0 else real_of_int (roundEven (x / ulp x)) * ulp x)"

definition isDouble :: "real \<Rightarrow> bool" where
  "isDouble c \<longleftrightarrow> toDouble c = c"

definition fadd :: "real \<Rightarrow> real \<Rightarrow> real" where
  "fadd a b = toDouble (a + b)"

subsection \<open>The handler in double precision\<close>

text \<open>
  \<open>onAudioBuffer\<close> above takes the two sums \<^verbatim>\<open>currentTime + bufferTime\<close> and
  \<^verbatim>\<open>nextStartTime += audioBuffer.duration\<close> in the reals. Over a run each sum is rounded,
  and the rounded cursor decides the underrun checks that follow; so the runs of the engine
  are built from the handler with the arithmetic of the platform. \<open>AudioBuffer.duration\<close>
  is the quotient of the length by the sample rate, a number as well. The three definitions
  below are \<open>duration\<close>, \<open>onAudioBuffer\<close> and \<open>onmessage\<close> with that quotient and those two
  sums rounded, and nothing else changed.
\<close>

definition duration_f64 :: "AudioBuffer \<Rightarrow> real" where
  "duration_f64 b = toDouble (real (length_buf b) / real (sampleRate b))"

definition onAudioBuffer_f64 :: "real \<Rightarrow> AudioBuffer \<Rightarrow> PromptDj \<Rightarrow> PromptDj" where
  "onAudioBuffer_f64 now audioBuffer s =
     (let s1 = (if playbackState s = playing \<or> playbackState s = loading
                then s\<lparr>recordedChunks := recordedChunks s @ [audioBuffer]\<rparr> else s);
          s2 = (if nextStartTime s1 = 0
                then emit SetTimeoutPlaying (s1\<lparr>nextStartTime := fadd now bufferTime\<rparr>) else s1)
      in if nextStartTime s2 < now then
           (let s3 = emit (ConsoleLog ''under run'') s2;
                s4 = s3\<lparr>playbackState := loading, nextStartTime := 0\<rparr>
            in if timerIntervalId s4 then s4\<lparr>timerIntervalId := False, elapsedTime := 0\<rparr>
               else s4)
         else
           (let s3 = emit (SourceStart audioBuffer (nextStartTime s2)) s2
            in s3\<lparr>nextStartTime := fadd (nextStartTime s3) (duration_f64 audioBuffer)\<rparr>))"

definition onmessage_f64 :: "real \<Rightarrow> LiveMusicServerMessage \<Rightarrow> PromptDj \<Rightarrow> PromptDj" where
  "onmessage_f64 now e s =
     (let s1 = (if setupComplete e then s\<lparr>connectionError := False\<rparr> else s);
          s2 = (case filteredPrompt e of
                  None \<Rightarrow> s1
                | Some (txt, reason) \<Rightarrow>
                    emit (Toast reason) (s1\<lparr>filteredPrompts := insert txt (filteredPrompts s1)\<rparr>))
      in case audioChunks e of
           None \<Rightarrow> s2
         | Some chunks \<Rightarrow>
             if playbackState s2 = paused \<or> playbackState s2 = stopped then s2
             else (case chunks of
                     [] \<Rightarrow> s2
                   | data # _ \<Rightarrow>
                       (let s3 = emit (DecodeAudioData data) s2
                        in case decodeAudioData data 48000 2 of
                             Inl err \<Rightarrow> s3
                           | Inr audioBuffer \<Rightarrow> onAudioBuffer_f64 now audioBuffer s3)))"

subsection \<open>Runs of the engine\<close>

text \<open>A run is a sequence of inbound messages and firings of the lead timer, each with the
  reading of \<open>audioContext.currentTime\<close> at which it is handled.\<close>

datatype event = Message real LiveMusicServerMessage | LeadTimer real

fun step :: "event \<Rightarrow> PromptDj \<Rightarrow> PromptDj" where
  "step (Message now e) s = onmessage_f64 now e s"
| "step (LeadTimer now) s = leadTimerFired now s"

definition run :: "event list \<Rightarrow> PromptDj \<Rightarrow> PromptDj" where
  "run es s = fold step es s"

section \<open>Reading the results\<close>

text \<open>The sample words of one frame and of the whole data sub-chunk, in the order the
  two loops of \<open>audioBufferToWav\<close> write them.\<close>

definition frameSamples :: "real list list \<Rightarrow> nat \<Rightarrow> nat \<Rightarrow> int16 list" where
  "frameSamples channels numOfChan i = map (\<lambda>j. pcm16 (sampleAt channels j i)) [0..<numOfChan]"

definition allSamples :: "real list list \<Rightarrow> nat \<Rightarrow> nat \<Rightarrow> int16 list" where
  "allSamples channels numOfChan len = concat (map (frameSamples channels numOfChan) [0..<len])"

text \<open>Little-endian fields of a byte sequence, as a WAV reader takes them.\<close>

definition readUint32 :: "byte list \<Rightarrow> nat \<Rightarrow> nat" where
  "readUint32 bs off = unat (word32_of_bytes (take 4 (drop off bs)))"

definition readUint16 :: "byte list \<Rightarrow> nat \<Rightarrow> nat" where
  "readUint16 bs off = unat (word16_of_bytes (bs ! off) (bs ! (off + 1)))"

definition readInt16 :: "byte list \<Rightarrow> nat \<Rightarrow> int" where
  "readInt16 bs off = sint (word16_of_bytes (bs ! off) (bs ! (off + 1)))"

text \<open>The bytes of the file when \<open>audioBufferToWav\<close> returns.\<close>

definition wavBytes :: "AudioBuffer \<Rightarrow> byte list" where
  "wavBytes b = (case audioBufferToWav b of Inl e \<Rightarrow> [] | Inr wav \<Rightarrow> wav)"

text \<open>The engine as its constructor leaves it, for the prompts \<open>ps\<close>.\<close>

definition initialState :: "(string \<times> Prompt) list \<Rightarrow> PromptDj" where
  "initialState ps =
     \<lparr>prompts = ps, filteredPrompts = {}, nextStartTime = 0, playbackState = stopped,
      recordedChunks = [], connectionError = True, timerStartTime = 0,
      timerIntervalId = False, elapsedTime = 0, lastCall_setSessionPrompts = 0,
      effects = []\<rparr>"

text \<open>What the engine did, read off its calls: the segments started with their start
  times, the chunks handed to the decoder, the payloads submitted to the session, and the
  number of underruns logged.\<close>

fun startOf :: "effect \<Rightarrow> (AudioBuffer \<times> real) option" where
  "startOf (SourceStart b t) = Some (b, t)"
| "startOf _ = None"

fun decodeOf :: "effect \<Rightarrow> byte list option" where
  "decodeOf (DecodeAudioData d) = Some d"
| "decodeOf _ = None"

fun submissionOf :: "effect \<Rightarrow> Prompt list option" where
  "submissionOf (SetWeightedPrompts ps) = Some ps"
| "submissionOf _ = None"

definition scheduled :: "PromptDj \<Rightarrow> (AudioBuffer \<times> real) list" where
  "scheduled s = List.map_filter startOf (effects s)"

definition decoded :: "PromptDj \<Rightarrow> byte list list" where
  "decoded s = List.map_filter decodeOf (effects s)"

definition submissions :: "PromptDj \<Rightarrow> Prompt list list" where
  "submissions s = List.map_filter submissionOf (effects s)"

definition underruns :: "PromptDj \<Rightarrow> nat" where
  "underruns s = length (filter (\<lambda>x. x = ConsoleLog ''under run'') (effects s))"

text \<open>The segment a message carries: its first chunk, when the decoder accepts it.\<close>

definition segmentOf :: "LiveMusicServerMessage \<Rightarrow> AudioBuffer option" where
  "segmentOf e =
     (case audioChunks e of
        Some (data # _) \<Rightarrow>
          (case decodeAudioData data 48000 2 of Inr b \<Rightarrow> Some b | Inl _ \<Rightarrow> None)
      | _ \<Rightarrow> None)"

fun clock :: "event \<Rightarrow> real" where
  "clock (Message now e) = now"
| "clock (LeadTimer now) = now"

text \<open>The segments of a run, each with the clock reading at its arrival.\<close>

fun segments :: "event list \<Rightarrow> (real \<times> AudioBuffer) list" where
  "segments [] = []"
| "segments (Message now e # es) =
     (case segmentOf e of None \<Rightarrow> segments es | Some b \<Rightarrow> (now, b) # segments es)"
| "segments (LeadTimer now # es) = segments es"

text \<open>Start times without gaps: each segment starts where the previous one ends, the end
  being the sum of the start time and the duration as the platform computes it.\<close>

fun gapless :: "real \<Rightarrow> real list \<Rightarrow> real list" where
  "gapless c [] = []"
| "gapless c (d # ds) = c # gapless (fadd c d) ds"

text \<open>A burst of prompt changes, each with the reading of \<open>Date.now()\<close> at its
  arrival.\<close>

definition promptChanges ::
  "(int \<times> string \<times> string \<times> real \<times> string) list \<Rightarrow> PromptDj \<Rightarrow> PromptDj" where
  "promptChanges rs s = fold (\<lambda>(now, detail). handlePromptChanged now detail) rs s"

text \<open>The value of \<open>nextStartTime\<close> at the underrun check of the handler, after the
  lead has been applied to a cursor at 0: with the sum in the reals, and with the sum of
  the platform. \<open>startCursor\<close> is that value for the first segment of a run.\<close>

definition cursor :: "real \<Rightarrow> PromptDj \<Rightarrow> real" where
  "cursor now s = (if nextStartTime s = 0 then now + bufferTime else nextStartTime s)"

definition cursor_f64 :: "real \<Rightarrow> PromptDj \<Rightarrow> real" where
  "cursor_f64 now s = (if nextStartTime s = 0 then fadd now bufferTime else nextStartTime s)"

definition startCursor :: "PromptDj \<Rightarrow> event list \<Rightarrow> real" where
  "startCursor s es =
     (case segments es of [] \<Rightarrow> nextStartTime s | (t, b) # _ \<Rightarrow> cursor_f64 t s)"

text \<open>The segments that a run schedules, with their start times.\<close>

definition newlyScheduled :: "PromptDj \<Rightarrow> event list \<Rightarrow> (AudioBuffer \<times> real) list" where
  "newlyScheduled s es = drop (length (scheduled s)) (scheduled (run es s))"

text \<open>Sample inputs: a stereo segment of one silent frame, and the message whose chunk
  decodes to it.\<close>

definition silentFrame :: AudioBuffer where
  "silentFrame =
     \<lparr>numberOfChannels = 2, length_buf = 1, sampleRate = 48000, channelData = [[0], [0]]\<rparr>"

definition silentMessage :: LiveMusicServerMessage where
  "silentMessage =
     \<lparr>setupComplete = False, filteredPrompt = None, audioChunks = Some [[0, 0, 0, 0]]\<rparr>"




text \<open>What every operation of the engine keeps true: the cursor is not negative, and the
  capture log holds well-formed stereo buffers.\<close>

definition engine_inv :: "PromptDj \<Rightarrow> bool" where
  "engine_inv s \<longleftrightarrow>
     0 \<le> nextStartTime s \<and>
     list_all (\<lambda>x. wf_buffer x \<and> numberOfChannels x = 2) (recordedChunks s)"

section \<open>Properties of the codec\<close>


lemma w16_roundtrip: "word16_of_bytes (ucast w) (ucast (drop_bit 8 w)) = (w::16 word)"
  unfolding word16_of_bytes_def
  by (rule bit_word_eqI) (auto simp: bit_simps)

lemma int16_pairs_bytes16: "int16_pairs (concat (map bytes16 ws)) = ws"
  by (induction ws) (simp_all add: bytes16_def w16_roundtrip)

lemma len_concat_bytes16: "length (concat (map bytes16 ws)) = 2 * length ws"
  by (induction ws) (simp_all add: bytes16_def)

lemma decodeSamples_createBlob:
  "decodeSamples (createBlob xs) = Inr (map (\<lambda>x. real_of_int (sint (toInt16 (x * 32768))) / 32768) xs)"
  unfolding decodeSamples_def createBlob_def Int16Array_def len_concat_bytes16
      int16_pairs_bytes16 dataFloat32_def createBlob_int16_def
  by (simp add: comp_def)


lemma sint_toInt16: "- 32768 \<le> toInteger y \<Longrightarrow> toInteger y < 32768 \<Longrightarrow> sint (toInt16 y) = toInteger y"
  unfolding toInt16_def
  by (simp add: sint_sbintrunc' signed_take_bit_int_eq_self)

lemma toInteger_err: "\<bar>real_of_int (toInteger y) - y\<bar> < 1"
  unfolding toInteger_def by (auto; linarith)

text \<open>Below full scale the round trip stays within one quantization step.\<close>

lemma roundtrip_below_full_scale:
  assumes "- 1 \<le> x" "x < 1"
  shows "\<bar>real_of_int (sint (toInt16 (x * 32768))) / 32768 - x\<bar> < 1 / 32768"
proof -
  let ?y = "x * 32768"
  have a: "- 32768 \<le> toInteger ?y" using assms unfolding toInteger_def by (auto; linarith)
  have b: "toInteger ?y < 32768" using assms unfolding toInteger_def by (auto; linarith)
  have "\<bar>real_of_int (toInteger ?y) - ?y\<bar> < 1" by (rule toInteger_err)
  then show ?thesis using sint_toInt16[OF a b] by (simp add: field_simps)
qed


lemma setBytes_length [simp]: "length (setBytes v off bs) = length v"
  by (induction bs arbitrary: v off) simp_all

lemma setBytes_nth:
  "k < length v \<Longrightarrow>
   setBytes v off bs ! k = (if off \<le> k \<and> k < off + length bs then bs ! (k - off) else v ! k)"
proof (induction bs arbitrary: v off)
  case Nil
  then show ?case by auto
next
  case (Cons b bs)
  show ?case
  proof (cases "k = off")
    case True
    with Cons show ?thesis by simp
  next
    case False
    with Cons show ?thesis by (auto simp: nth_Cons' Suc_diff_le)
  qed
qed

lemma setBytes_eq:
  "off + length bs \<le> length v \<Longrightarrow>
   setBytes v off bs = take off v @ bs @ drop (off + length bs) v"
  by (rule nth_equalityI) (auto simp: setBytes_nth nth_append)

lemma bytes16_length [simp]: "length (bytes16 w) = 2"
  by (simp add: bytes16_def)

lemma bytes32_length [simp]: "length (bytes32 w) = 4"
  by (simp add: bytes32_def)

lemma writeSamples_eq:
  "off + 2 * length ws \<le> length v \<Longrightarrow>
   fold (\<lambda>w (view, offset). (setInt16 view offset w, offset + 2)) ws (v, off) =
     (take off v @ concat (map bytes16 ws) @ drop (off + 2 * length ws) v, off + 2 * length ws)"
proof (induction ws arbitrary: v off)
  case Nil
  then show ?case by simp
next
  case (Cons w ws)
  let ?v' = "setInt16 v off w"
  have v': "?v' = take off v @ bytes16 w @ drop (off + 2) v"
    using Cons.prems by (simp add: setInt16_def setBytes_eq)
  have len: "length ?v' = length v" by (simp add: setInt16_def)
  have "fold (\<lambda>w (view, offset). (setInt16 view offset w, offset + 2)) (w # ws) (v, off) =
        fold (\<lambda>w (view, offset). (setInt16 view offset w, offset + 2)) ws (?v', off + 2)"
    by simp
  also have "\<dots> = (take (off + 2) ?v' @ concat (map bytes16 ws) @ drop (off + 2 + 2 * length ws) ?v',
                    off + 2 + 2 * length ws)"
    using Cons.prems by (intro Cons.IH) (simp add: len)
  also have "take (off + 2) ?v' = take off v @ bytes16 w"
    using Cons.prems by (simp add: v')
  also have "drop (off + 2 + 2 * length ws) ?v' = drop (off + 2 * length (w # ws)) v"
    using Cons.prems by (simp add: v' add.commute)
  finally show ?case by simp
qed


lemma wavFrame_fold:
  "wavFrame channels numOfChan i =
   fold (\<lambda>w (view, offset). (setInt16 view offset w, offset + 2)) (frameSamples channels numOfChan i)"
  by (simp add: wavFrame_def frameSamples_def fold_map comp_def)

lemma fold_frames:
  "fold (\<lambda>i. fold f (g i)) xs = fold f (concat (map g xs))"
  by (induction xs) (simp_all add: fun_eq_iff)

lemma wavData_fold:
  "wavData channels numOfChan len view =
   fold (\<lambda>w (view, offset). (setInt16 view offset w, offset + 2))
     (allSamples channels numOfChan len) (view, 44)"
  by (simp add: wavData_def wavFrame_fold allSamples_def fold_frames)

lemma frameSamples_length [simp]: "length (frameSamples channels numOfChan i) = numOfChan"
  by (simp add: frameSamples_def)

lemma allSamples_length [simp]: "length (allSamples channels numOfChan len) = len * numOfChan"
  by (induction len) (simp_all add: allSamples_def)

lemma allSamples_nth:
  "i < len \<Longrightarrow> j < numOfChan \<Longrightarrow>
   allSamples channels numOfChan len ! (i * numOfChan + j) = pcm16 (sampleAt channels j i)"
proof (induction len)
  case 0
  then show ?case by simp
next
  case (Suc len)
  have split: "allSamples channels numOfChan (Suc len) =
               allSamples channels numOfChan len @ frameSamples channels numOfChan len"
    by (simp add: allSamples_def)
  show ?case
  proof (cases "i < len")
    case True
    then have "Suc i * numOfChan \<le> len * numOfChan"
      by (intro mult_le_mono1) simp
    then have "i * numOfChan + j < len * numOfChan"
      using Suc.prems(2) by simp
    then show ?thesis using True Suc by (simp add: split nth_append)
  next
    case False
    then have "i = len" using Suc.prems by simp
    then show ?thesis using Suc.prems by (simp add: split nth_append frameSamples_def)
  qed
qed

lemma wavData_eq:
  "length view = 44 + 2 * (len * numOfChan) \<Longrightarrow>
   fst (wavData channels numOfChan len view) =
     take 44 view @ concat (map bytes16 (allSamples channels numOfChan len))"
  unfolding wavData_fold
  using writeSamples_eq [of 44 "allSamples channels numOfChan len" view]
  by simp

lemma getChannels_map:
  "\<forall>i \<in> set is. i < numberOfChannels b \<and> i < length (channelData b) \<Longrightarrow>
   getChannels b is = Inr (map (\<lambda>i. channelData b ! i) is)"
  by (induction "is") (simp_all add: getChannelData_def)

lemma getChannels_wf:
  "wf_buffer b \<Longrightarrow> getChannels b [0..<numberOfChannels b] = Inr (channelData b)"
proof -
  assume wf: "wf_buffer b"
  then have "map (\<lambda>i. channelData b ! i) [0..<numberOfChannels b] = channelData b"
    by (metis map_nth wf_buffer_def)
  then show ?thesis
    using wf getChannels_map [of "[0..<numberOfChannels b]" b] by (simp add: wf_buffer_def)
qed

lemma sampleAt_wf:
  "wf_buffer b \<Longrightarrow> j < numberOfChannels b \<Longrightarrow> i < length_buf b \<Longrightarrow>
   sampleAt (channelData b) j i = Some (channelData b ! j ! i)"
  by (simp add: sampleAt_def wf_buffer_def list_all_length)

lemma wavHeader_length [simp]: "length (wavHeader b v) = length v"
  by (simp add: wavHeader_def Let_def writeString_def setUint32_def setUint16_def)

lemma audioBufferToWav_wf:
  assumes "wf_buffer b"
  shows "audioBufferToWav b =
           Inr (take 44 (wavHeader b (replicate (length_buf b * numberOfChannels b * 2 + 44) 0))
                @ concat (map bytes16 (allSamples (channelData b) (numberOfChannels b) (length_buf b))))"
  using assms
  by (simp add: audioBufferToWav_def Let_def getChannels_wf wavData_eq mult.commute mult.left_commute)

lemma toUint32_nat: "toUint32 (real n) = word_of_nat n"
  by (simp add: toUint32_def toInteger_def)

lemma toInt16_nat: "toInt16 (real n) = word_of_nat n"
  by (simp add: toInt16_def toInteger_def)

lemma word32_bytes32: "word32_of_bytes (bytes32 w) = w"
  unfolding word32_of_bytes_def bytes32_def
  apply (rule bit_word_eqI)
  apply (auto simp: bit_simps)
  subgoal for n by (cases "n < 24") (simp_all add: not_less)
  done

lemma word16_bytes16: "word16_of_bytes (bytes16 w ! 0) (bytes16 w ! 1) = w"
  unfolding word16_of_bytes_def bytes16_def
  by (rule bit_word_eqI) (auto simp: bit_simps)

lemma slice4:
  "off + 4 \<le> length xs \<Longrightarrow>
   take 4 (drop off xs) = [xs ! off, xs ! (off + 1), xs ! (off + 2), xs ! (off + 3)]"
proof -
  assume "off + 4 \<le> length xs"
  then have "drop off xs = xs ! off # xs ! Suc off # xs ! Suc (Suc off) # xs ! Suc (Suc (Suc off))
                 # drop (Suc (Suc (Suc (Suc off)))) xs"
    by (simp add: Cons_nth_drop_Suc)
  then show ?thesis by (simp add: numeral_eq_Suc)
qed

lemma slice2:
  "off + 2 \<le> length xs \<Longrightarrow> take 2 (drop off xs) = [xs ! off, xs ! (off + 1)]"
proof -
  assume "off + 2 \<le> length xs"
  then have "drop off xs = xs ! off # xs ! Suc off # drop (Suc (Suc off)) xs"
    by (simp add: Cons_nth_drop_Suc)
  then show ?thesis by (simp add: numeral_eq_Suc)
qed

lemma header_riff_size:
  "44 \<le> length v \<Longrightarrow>
   take 4 (drop 4 (wavHeader b v)) =
     bytes32 (toUint32 (36 + real (length_buf b) * real (numberOfChannels b) * 2))"
  apply (simp add: slice4)
  apply (simp add: wavHeader_def Let_def writeString_def setUint32_def setUint16_def setBytes_nth)
  apply (simp add: bytes32_def)
  done


lemma header_data_size:
  "44 \<le> length v \<Longrightarrow>
   take 4 (drop 40 (wavHeader b v)) =
     bytes32 (toUint32 (real (length_buf b) * real (numberOfChannels b) * 2))"
  apply (simp add: slice4)
  apply (simp add: wavHeader_def Let_def writeString_def setUint32_def setUint16_def setBytes_nth)
  apply (simp add: bytes32_def)
  done

lemma header_byte_rate:
  "44 \<le> length v \<Longrightarrow>
   take 4 (drop 28 (wavHeader b v)) =
     bytes32 (toUint32 (real (sampleRate b) * 2 * real (numberOfChannels b)))"
  apply (simp add: slice4)
  apply (simp add: wavHeader_def Let_def writeString_def setUint32_def setUint16_def setBytes_nth)
  apply (simp add: bytes32_def)
  done

lemma header_block_align:
  "44 \<le> length v \<Longrightarrow>
   take 2 (drop 32 (wavHeader b v)) = bytes16 (toInt16 (real (numberOfChannels b) * 2))"
  apply (simp add: slice2)
  apply (simp add: wavHeader_def Let_def writeString_def setUint32_def setUint16_def setBytes_nth)
  apply (simp add: bytes16_def)
  done

lemma take_drop_take:
  "m \<le> length xs \<Longrightarrow> off + n \<le> m \<Longrightarrow> take n (drop off (take m xs @ ys)) = take n (drop off xs)"
proof -
  assume m: "m \<le> length xs" and n: "off + n \<le> m"
  have "drop off (take m xs @ ys) = drop off (take m xs) @ ys"
    using m n by simp
  moreover have "take n (drop off (take m xs) @ ys) = take n (drop off (take m xs))"
    using m n by simp
  moreover have "drop off (take m xs) = take (m - off) (drop off xs)"
    by (simp add: drop_take)
  moreover have "take n (take (m - off) (drop off xs)) = take n (drop off xs)"
    using n by (simp add: min_def)
  ultimately show ?thesis by simp
qed

declare len_concat_bytes16 [simp]

lemma wav_header_slice:
  assumes "wf_buffer b" "off + n \<le> 44"
  shows "take n (drop off (wavBytes b)) =
         take n (drop off (wavHeader b (replicate (length_buf b * numberOfChannels b * 2 + 44) 0)))"
proof -
  let ?h = "wavHeader b (replicate (length_buf b * numberOfChannels b * 2 + 44) 0)"
  have len: "44 \<le> length ?h" by simp
  have "wavBytes b =
        take 44 ?h @ concat (map bytes16 (allSamples (channelData b) (numberOfChannels b) (length_buf b)))"
    by (simp add: wavBytes_def audioBufferToWav_wf [OF assms(1)])
  then show ?thesis
    using take_drop_take [OF len assms(2)] by (simp only:)
qed

lemma wavBytes_length:
  "wf_buffer b \<Longrightarrow> length (wavBytes b) = 44 + length_buf b * numberOfChannels b * 2"
  by (simp add: wavBytes_def audioBufferToWav_wf)

lemma unat_of_nat32: "unat (word_of_nat n :: 32 word) = n mod 2 ^ 32"
  by (simp add: unat_of_nat)

lemma unat_of_nat16: "unat (word_of_nat n :: 16 word) = n mod 2 ^ 16"
  by (simp add: unat_of_nat)

lemma readUint16_slice:
  "off + 2 \<le> length bs \<Longrightarrow> take 2 (drop off bs) = bytes16 w \<Longrightarrow> readUint16 bs off = unat w"
  using word16_bytes16 [of w] by (simp add: readUint16_def slice2 bytes16_def)

lemma readInt16_slice:
  "off + 2 \<le> length bs \<Longrightarrow> take 2 (drop off bs) = bytes16 w \<Longrightarrow> readInt16 bs off = sint w"
  using word16_bytes16 [of w] by (simp add: readInt16_def slice2 bytes16_def)

lemma wav_fields:
  assumes wf: "wf_buffer b"
  shows "readUint32 (wavBytes b) 4 = (36 + length_buf b * numberOfChannels b * 2) mod 2 ^ 32"
    and "readUint32 (wavBytes b) 40 = (length_buf b * numberOfChannels b * 2) mod 2 ^ 32"
    and "readUint32 (wavBytes b) 28 = (sampleRate b * numberOfChannels b * 2) mod 2 ^ 32"
    and "readUint16 (wavBytes b) 32 = (numberOfChannels b * 2) mod 2 ^ 16"
proof -
  let ?v = "replicate (length_buf b * numberOfChannels b * 2 + 44) (0::byte)"
  have len: "44 \<le> length ?v" by simp
  have "36 + real (length_buf b) * real (numberOfChannels b) * 2 =
        real (36 + length_buf b * numberOfChannels b * 2)" by simp
  then show "readUint32 (wavBytes b) 4 = (36 + length_buf b * numberOfChannels b * 2) mod 2 ^ 32"
    unfolding readUint32_def wav_header_slice [OF wf, of 4 4, simplified]
      header_riff_size [OF len] word32_bytes32
    by (simp only: toUint32_nat unat_of_nat32)
  have "real (length_buf b) * real (numberOfChannels b) * 2 =
        real (length_buf b * numberOfChannels b * 2)" by simp
  then show "readUint32 (wavBytes b) 40 = (length_buf b * numberOfChannels b * 2) mod 2 ^ 32"
    unfolding readUint32_def wav_header_slice [OF wf, of 40 4, simplified]
      header_data_size [OF len] word32_bytes32
    by (simp only: toUint32_nat unat_of_nat32)
  have "real (sampleRate b) * 2 * real (numberOfChannels b) =
        real (sampleRate b * numberOfChannels b * 2)" by simp
  then show "readUint32 (wavBytes b) 28 = (sampleRate b * numberOfChannels b * 2) mod 2 ^ 32"
    unfolding readUint32_def wav_header_slice [OF wf, of 28 4, simplified]
      header_byte_rate [OF len] word32_bytes32
    by (simp only: toUint32_nat unat_of_nat32)
  have r: "real (numberOfChannels b) * 2 = real (numberOfChannels b * 2)" by simp
  have "take 2 (drop 32 (wavBytes b)) = bytes16 (word_of_nat (numberOfChannels b * 2))"
    unfolding wav_header_slice [OF wf, of 32 2, simplified] header_block_align [OF len] r toInt16_nat
    by simp
  moreover have "32 + 2 \<le> length (wavBytes b)"
    by (simp add: wavBytes_length [OF wf])
  ultimately have "readUint16 (wavBytes b) 32 = unat (word_of_nat (numberOfChannels b * 2) :: 16 word)"
    by (rule readUint16_slice [rotated])
  then show "readUint16 (wavBytes b) 32 = (numberOfChannels b * 2) mod 2 ^ 16"
    by (simp only: unat_of_nat16)
qed


lemma concat_bytes16_slice:
  "m < length ws \<Longrightarrow> take 2 (drop (2 * m) (concat (map bytes16 ws))) = bytes16 (ws ! m)"
proof (induction ws arbitrary: m)
  case Nil
  then show ?case by simp
next
  case (Cons w ws)
  show ?case
  proof (cases m)
    case 0
    then show ?thesis by simp
  next
    case (Suc k)
    then have "k < length ws" using Cons.prems by simp
    then show ?thesis using Suc Cons.IH [of k] by simp
  qed
qed

lemma wav_sample_slice:
  assumes wf: "wf_buffer b" and i: "i < length_buf b" and j: "j < numberOfChannels b"
  shows "take 2 (drop (44 + 2 * (i * numberOfChannels b + j)) (wavBytes b)) =
         bytes16 (pcm16 (Some (channelData b ! j ! i)))"
proof -
  let ?h = "wavHeader b (replicate (length_buf b * numberOfChannels b * 2 + 44) 0)"
  let ?ws = "allSamples (channelData b) (numberOfChannels b) (length_buf b)"
  let ?m = "i * numberOfChannels b + j"
  have "Suc i * numberOfChannels b \<le> length_buf b * numberOfChannels b"
    using i by (intro mult_le_mono1) simp
  then have m: "?m < length ?ws" using j by simp
  have "wavBytes b = take 44 ?h @ concat (map bytes16 ?ws)"
    by (simp add: wavBytes_def audioBufferToWav_wf [OF wf])
  moreover have "length (take 44 ?h) = 44" by simp
  ultimately have "drop (44 + 2 * ?m) (wavBytes b) = drop (2 * ?m) (concat (map bytes16 ?ws))"
    by (simp only: drop_append) simp
  then have "take 2 (drop (44 + 2 * ?m) (wavBytes b)) = bytes16 (?ws ! ?m)"
    using concat_bytes16_slice [OF m] by simp
  then show ?thesis
    using allSamples_nth [OF i j] sampleAt_wf [OF wf j i] by simp
qed

lemma clampSample_range: "- 1 \<le> clampSample x \<and> clampSample x \<le> 1"
  by (simp add: clampSample_def)

lemma scaleSample_range:
  "- 1 \<le> s \<Longrightarrow> s \<le> 1 \<Longrightarrow> - 32768 \<le> scaleSample s \<and> scaleSample s \<le> 32767"
  by (simp add: scaleSample_def)

lemma toInteger_mono_range:
  "real_of_int lo \<le> y \<Longrightarrow> y \<le> real_of_int hi \<Longrightarrow> lo \<le> toInteger y \<and> toInteger y \<le> hi"
  unfolding toInteger_def by (auto simp: le_floor_iff ceiling_le_iff; linarith)

lemma pcm16_value:
  "sint (pcm16 (Some x)) = toInteger (scaleSample (clampSample x))"
proof -
  have "- 32768 \<le> scaleSample (clampSample x) \<and> scaleSample (clampSample x) \<le> 32767"
    using scaleSample_range clampSample_range by blast
  then have "- 32768 \<le> toInteger (scaleSample (clampSample x)) \<and> toInteger (scaleSample (clampSample x)) \<le> 32767"
    using toInteger_mono_range [of "- 32768" "scaleSample (clampSample x)" 32767] by simp
  then show ?thesis by (simp add: pcm16_def sint_toInt16)
qed


subsection \<open>Round trip of createBlob and decodeAudioData\<close>

text \<open>
  Claim C4: for samples in \<open>[-1, 1]\<close>, decoding what \<open>createBlob\<close> encoded reproduces
  each sample within \<open>1/32768\<close>. The source's comment promises the range
  \<open>-32768 .. 32767\<close>, but the full-scale sample \<open>1\<close> is multiplied to \<open>32768\<close>, which
  the \<open>Int16Array\<close> store wraps to \<open>-32768\<close>: the round trip of \<open>[1]\<close> is \<open>[-1]\<close>, an
  error of 2.
\<close>

theorem createBlob_full_scale_wraps:
  "decodeSamples (createBlob [1]) = Inr [- 1]"
  by (simp add: decodeSamples_createBlob toInt16_def toInteger_def)

subsection \<open>The WAV header\<close>

text \<open>
  Claim C7 (as the code has it): for a buffer of \<open>N\<close> frames, \<open>C\<close> channels and rate
  \<open>R\<close>, \<open>audioBufferToWav\<close> returns \<open>44 + N*C*2\<close> bytes whose little-endian fields hold
  \<open>36 + N*C*2\<close> at offset 4, \<open>N*C*2\<close> at offset 40 and \<open>R*C*2\<close> at offset 28, each
  reduced modulo \<open>2^32\<close> by the 32-bit store, and \<open>C*2\<close> modulo \<open>2^16\<close> at offset 32;
  the fields equal the plain values whenever these fit.
\<close>

theorem wav_header_fields:
  assumes "wf_buffer b"
  shows "audioBufferToWav b = Inr (wavBytes b) \<and>
         length (wavBytes b) = 44 + length_buf b * numberOfChannels b * 2 \<and>
         readUint32 (wavBytes b) 4 = (36 + length_buf b * numberOfChannels b * 2) mod 2 ^ 32 \<and>
         readUint32 (wavBytes b) 40 = (length_buf b * numberOfChannels b * 2) mod 2 ^ 32 \<and>
         readUint32 (wavBytes b) 28 = (sampleRate b * numberOfChannels b * 2) mod 2 ^ 32 \<and>
         readUint16 (wavBytes b) 32 = (numberOfChannels b * 2) mod 2 ^ 16"
proof -
  have "audioBufferToWav b = Inr (wavBytes b)"
    by (simp add: wavBytes_def audioBufferToWav_wf [OF assms])
  then show ?thesis
    using wav_fields [OF assms] wavBytes_length [OF assms] by simp
qed

theorem wav_header_fields_witness:
  "wf_buffer \<lparr>numberOfChannels = 2, length_buf = 3, sampleRate = 48000,
              channelData = [[0, 1 / 2, 1], [- 1, 0, 0]]\<rparr> \<and>
   length (wavBytes \<lparr>numberOfChannels = 2, length_buf = 3, sampleRate = 48000,
              channelData = [[0, 1 / 2, 1], [- 1, 0, 0]]\<rparr>) = 56 \<and>
   readUint32 (wavBytes \<lparr>numberOfChannels = 2, length_buf = 3, sampleRate = 48000,
              channelData = [[0, 1 / 2, 1], [- 1, 0, 0]]\<rparr>) 4 = 48 \<and>
   readUint32 (wavBytes \<lparr>numberOfChannels = 2, length_buf = 3, sampleRate = 48000,
              channelData = [[0, 1 / 2, 1], [- 1, 0, 0]]\<rparr>) 40 = 12 \<and>
   readUint32 (wavBytes \<lparr>numberOfChannels = 2, length_buf = 3, sampleRate = 48000,
              channelData = [[0, 1 / 2, 1], [- 1, 0, 0]]\<rparr>) 28 = 192000 \<and>
   readUint16 (wavBytes \<lparr>numberOfChannels = 2, length_buf = 3, sampleRate = 48000,
              channelData = [[0, 1 / 2, 1], [- 1, 0, 0]]\<rparr>) 32 = 4"
proof -
  have wf: "wf_buffer \<lparr>numberOfChannels = 2, length_buf = 3, sampleRate = 48000,
              channelData = [[0, 1 / 2, 1], [- 1, 0, 0]]\<rparr>"
    by (simp add: wf_buffer_def)
  show ?thesis
    using wf wav_header_fields [OF wf] by simp
qed

text \<open>
  The claim as stated, with the plain value \<open>36 + N*C*2\<close> in the RIFF size field, fails
  once that value needs more than 32 bits: for two channels of \<open>2^30\<close> frames the field
  holds 36.
\<close>

theorem wav_riff_size_counterexample:
  "readUint32 (wavBytes \<lparr>numberOfChannels = 2, length_buf = 1073741824, sampleRate = 48000,
      channelData = [replicate 1073741824 0, replicate 1073741824 0]\<rparr>) 4 \<noteq> 36 + 1073741824 * 2 * 2"
proof -
  let ?b = "\<lparr>numberOfChannels = 2, length_buf = 1073741824, sampleRate = 48000,
      channelData = [replicate 1073741824 0, replicate 1073741824 0]\<rparr>"
  have "wf_buffer ?b" by (simp add: wf_buffer_def)
  then have "readUint32 (wavBytes ?b) 4 = (36 + length_buf ?b * numberOfChannels ?b * 2) mod 2 ^ 32"
    by (rule wav_fields(1))
  then show ?thesis by simp
qed

subsection \<open>The WAV samples\<close>

text \<open>
  Claim C8: every sample written to the data sub-chunk is first clamped to \<open>[-1, 1]\<close>, then
  scaled by 32768 when negative and by 32767 otherwise, and stored as a little-endian signed
  16-bit integer: the sample of frame \<open>i\<close> and channel \<open>j\<close> lies at offset
  \<open>44 + 2 * (i * C + j)\<close>, and reading it back gives the scaled value truncated towards
  zero, without wrap-around.
\<close>

theorem wav_sample_quantization:
  assumes "wf_buffer b" and "i < length_buf b" and "j < numberOfChannels b"
  shows "let s = max (- 1) (min 1 (channelData b ! j ! i));
             q = (if s < 0 then s * 32768 else s * 32767);
             off = 44 + 2 * (i * numberOfChannels b + j)
         in audioBufferToWav b = Inr (wavBytes b) \<and>
            take 2 (drop off (wavBytes b)) = bytes16 (word_of_int (toInteger q)) \<and>
            readInt16 (wavBytes b) off = toInteger q"
proof -
  let ?x = "channelData b ! j ! i"
  let ?off = "44 + 2 * (i * numberOfChannels b + j)"
  have sl: "take 2 (drop ?off (wavBytes b)) = bytes16 (pcm16 (Some ?x))"
    by (rule wav_sample_slice [OF assms])
  have "Suc i * numberOfChannels b \<le> length_buf b * numberOfChannels b"
    using assms(2) by (intro mult_le_mono1) simp
  then have "?off + 2 \<le> length (wavBytes b)"
    using assms(3) by (simp add: wavBytes_length [OF assms(1)])
  then have rd: "readInt16 (wavBytes b) ?off = sint (pcm16 (Some ?x))"
    using sl by (rule readInt16_slice)
  have q: "scaleSample (clampSample ?x) =
           (if max (- 1) (min 1 ?x) < 0 then max (- 1) (min 1 ?x) * 32768 else max (- 1) (min 1 ?x) * 32767)"
    by (simp only: scaleSample_def clampSample_def)
  have "audioBufferToWav b = Inr (wavBytes b)"
    by (simp add: wavBytes_def audioBufferToWav_wf [OF assms(1)])
  then show ?thesis
    unfolding Let_def using sl rd pcm16_value [of ?x] q
    by (simp add: pcm16_def toInt16_def)
qed

theorem wav_sample_quantization_witness:
  "wf_buffer \<lparr>numberOfChannels = 2, length_buf = 3, sampleRate = 48000,
              channelData = [[0, 1 / 2, 1], [- 1 / 2, 0, 3]]\<rparr> \<and>
   readInt16 (wavBytes \<lparr>numberOfChannels = 2, length_buf = 3, sampleRate = 48000,
              channelData = [[0, 1 / 2, 1], [- 1 / 2, 0, 3]]\<rparr>) 54 = 32767 \<and>
   readInt16 (wavBytes \<lparr>numberOfChannels = 2, length_buf = 3, sampleRate = 48000,
              channelData = [[0, 1 / 2, 1], [- 1 / 2, 0, 3]]\<rparr>) 46 = - 16384"
proof -
  let ?b = "\<lparr>numberOfChannels = 2, length_buf = 3, sampleRate = 48000,
              channelData = [[0, 1 / 2, 1], [- 1 / 2, 0, 3]]\<rparr>"
  have wf: "wf_buffer ?b"
    by (simp add: wf_buffer_def)
  have "readInt16 (wavBytes ?b) 54 = 32767"
    using wav_sample_quantization [OF wf, of 2 1] by (simp add: Let_def toInteger_def)
  moreover have "readInt16 (wavBytes ?b) 46 = - 16384"
    using wav_sample_quantization [OF wf, of 0 1] by (simp add: Let_def toInteger_def)
  ultimately show ?thesis using wf by simp
qed

section \<open>Properties of the rounding\<close>

text \<open>The rounding keeps order against the values of the format: a real that is at least
  a power of two, or at least a value of the format in its own binade, rounds to at least
  that value. So adding a duration that is not negative to a positive cursor of the format
  never moves the cursor back, and the result is a value of the format again.\<close>

lemma roundEven_ge: "real_of_int m \<le> x \<Longrightarrow> m \<le> roundEven x"
  unfolding roundEven_def Let_def by (auto simp: le_floor_iff) linarith+

lemma roundEven_le:
  assumes "x \<le> real_of_int m"
  shows "roundEven x \<le> m"
proof (cases "\<lfloor>x\<rfloor> = m")
  case True
  then have "x = real_of_int m" using assms by linarith
  then show ?thesis by (simp add: roundEven_def)
next
  case False
  have "\<lfloor>x\<rfloor> \<le> m" using assms by (simp add: floor_le_iff)
  then have "\<lfloor>x\<rfloor> + 1 \<le> m" using False by simp
  moreover have "roundEven x \<le> \<lfloor>x\<rfloor> + 1" by (simp add: roundEven_def Let_def)
  ultimately show ?thesis by linarith
qed

lemma roundEven_int [simp]: "roundEven (real_of_int m) = m"
  by (simp add: roundEven_def)

lemma ulp_pos: "0 < ulp x"
  by (simp add: ulp_def)

lemma binade_ge: "- 1022 \<le> binade x"
  by (simp add: binade_def)

lemma binade_upper:
  assumes "x \<noteq> 0"
  shows "\<bar>x\<bar> < 2 powr real_of_int (binade x + 1)"
proof -
  have "log 2 \<bar>x\<bar> < real_of_int (\<lfloor>log 2 \<bar>x\<bar>\<rfloor> + 1)" by linarith
  also have "\<dots> \<le> real_of_int (binade x + 1)" by (simp add: binade_def)
  finally have "2 powr log 2 \<bar>x\<bar> < 2 powr real_of_int (binade x + 1)"
    by (simp only: powr_less_cancel_iff) 
  then show ?thesis using assms by simp
qed

lemma binade_lower:
  assumes "- 1022 \<le> k" and "2 powr real_of_int k \<le> \<bar>x\<bar>"
  shows "k \<le> binade x" and "2 powr real_of_int (binade x) \<le> \<bar>x\<bar>"
proof -
  have pos: "0 < \<bar>x\<bar>" using assms(2) powr_gt_zero [of 2 "real_of_int k"] by linarith
  have "real_of_int k \<le> log 2 \<bar>x\<bar>"
    using assms(2) pos by (simp add: le_log_iff)
  then have k: "k \<le> \<lfloor>log 2 \<bar>x\<bar>\<rfloor>" by (simp add: le_floor_iff)
  then have b: "binade x = \<lfloor>log 2 \<bar>x\<bar>\<rfloor>" using assms(1) by (simp add: binade_def)
  show "k \<le> binade x" using k b by simp
  have "2 powr real_of_int (binade x) \<le> 2 powr log 2 \<bar>x\<bar>"
    unfolding b by (simp only: powr_le_cancel_iff) simp_all
  then show "2 powr real_of_int (binade x) \<le> \<bar>x\<bar>" using pos by simp
qed

lemma binade_mono: "0 < a \<Longrightarrow> a \<le> b \<Longrightarrow> binade a \<le> binade b"
  unfolding binade_def by (intro max.mono floor_mono) simp_all


lemma binade_le:
  assumes "y \<noteq> 0" and "\<bar>y\<bar> < 2 powr real_of_int (k + 1)" and "- 1022 \<le> k"
  shows "binade y \<le> k"
proof -
  have "log 2 \<bar>y\<bar> < real_of_int (k + 1)"
    using assms(1,2) by (simp add: log_less_iff)
  then have "\<lfloor>log 2 \<bar>y\<bar>\<rfloor> < k + 1" by (simp only: floor_less_iff)
  then show ?thesis using assms(3) by (simp add: binade_def)
qed

lemma binade_unclamped:
  assumes "- 1022 < binade x" and "x \<noteq> 0"
  shows "2 powr real_of_int (binade x) \<le> \<bar>x\<bar>"
proof -
  have b: "binade x = \<lfloor>log 2 \<bar>x\<bar>\<rfloor>" using assms(1) by (simp add: binade_def max_def split: if_splits)
  have "2 powr real_of_int (binade x) \<le> 2 powr log 2 \<bar>x\<bar>"
    unfolding b by (simp only: powr_le_cancel_iff) simp_all
  then show ?thesis using assms(2) by simp
qed

lemma binade_eq:
  assumes "2 powr real_of_int e \<le> \<bar>x\<bar>" and "\<bar>x\<bar> < 2 powr real_of_int (e + 1)" and "- 1022 \<le> e"
  shows "binade x = e"
proof -
  have "x \<noteq> 0" using assms(1) powr_gt_zero [of 2 "real_of_int e"] by auto
  then have "binade x \<le> e" using assms(2,3) by (rule binade_le)
  moreover have "e \<le> binade x" using assms(3,1) by (rule binade_lower(1))
  ultimately show ?thesis by simp
qed

lemma pow2_split: "2 powr real_of_int e = 2 powr 52 * 2 powr real_of_int (e - 52)"
proof -
  have "real_of_int e = 52 + real_of_int (e - 52)" by simp
  then show ?thesis by (simp only: powr_add)
qed

lemma pow2_52: "(2::real) powr 52 = real_of_int (2 ^ 52)"
  by simp

lemma toDouble_lower:
  assumes k: "- 1022 \<le> k" and x: "2 powr real_of_int k \<le> x"
  shows "2 powr real_of_int k \<le> toDouble x"
proof -
  have pos: "0 < x" using x powr_gt_zero [of 2 "real_of_int k"] by linarith
  then have ax: "\<bar>x\<bar> = x" by simp
  note bl = binade_lower [OF k, of x, unfolded ax, OF x]
  have "real_of_int (2 ^ 52) * ulp x \<le> x"
    using bl(2) by (simp only: ulp_def pow2_split [of "binade x"] pow2_52)
  then have "real_of_int (2 ^ 52) \<le> x / ulp x"
    using ulp_pos [of x] by (simp add: pos_le_divide_eq)
  then have "2 ^ 52 \<le> roundEven (x / ulp x)" by (rule roundEven_ge)
  then have "real_of_int (2 ^ 52) \<le> real_of_int (roundEven (x / ulp x))" by (simp only: of_int_le_iff)
  then have "real_of_int (2 ^ 52) * ulp x \<le> real_of_int (roundEven (x / ulp x)) * ulp x"
    using ulp_pos [of x] by (simp only: mult_le_cancel_right_pos)
  then have "2 powr real_of_int (binade x) \<le> toDouble x"
    using pos by (simp only: ulp_def pow2_split [of "binade x"] pow2_52 toDouble_def) simp
  moreover have "2 powr real_of_int k \<le> 2 powr real_of_int (binade x)"
    using bl(1) by simp
  ultimately show ?thesis by linarith
qed

lemma toDouble_at:
  assumes "2 powr real_of_int e \<le> x" and "x < 2 powr real_of_int (e + 1)" and "- 1022 \<le> e"
  shows "toDouble x =
           real_of_int (roundEven (x / 2 powr real_of_int (e - 52))) * 2 powr real_of_int (e - 52)"
proof -
  have pos: "0 < x" using assms(1) powr_gt_zero [of 2 "real_of_int e"] by linarith
  then have ax: "\<bar>x\<bar> = x" by simp
  have "binade x = e" using assms by (intro binade_eq) (simp_all only: ax)
  then show ?thesis using pos by (simp add: toDouble_def ulp_def)
qed

lemma isDouble_iff: "isDouble c \<longleftrightarrow> (\<exists>n :: int. c = real_of_int n * ulp c)"
proof
  assume "isDouble c"
  then have t: "toDouble c = c" by (simp only: isDouble_def)
  show "\<exists>n :: int. c = real_of_int n * ulp c"
  proof (cases "c = 0")
    case True
    then have "c = real_of_int 0 * ulp c" by simp
    then show ?thesis by (rule exI)
  next
    case False
    then have "c = real_of_int (roundEven (c / ulp c)) * ulp c"
      using t by (simp add: toDouble_def)
    then show ?thesis by (rule exI)
  qed
next
  assume "\<exists>n :: int. c = real_of_int n * ulp c"
  then obtain n :: int where n: "c = real_of_int n * ulp c" by blast
  then have "c / ulp c = (real_of_int n * ulp c) / ulp c"
    by (rule arg_cong [where f = "\<lambda>z. z / ulp c"])
  then have q: "c / ulp c = real_of_int n" using ulp_pos [of c] by simp
  have "toDouble c = c"
  proof (cases "c = 0")
    case True
    then show ?thesis by (simp add: toDouble_def)
  next
    case False
    then have "toDouble c = real_of_int (roundEven (c / ulp c)) * ulp c" by (simp add: toDouble_def)
    also have "\<dots> = real_of_int n * ulp c" by (simp only: q roundEven_int)
    finally show ?thesis using n by simp
  qed
  then show "isDouble c" by (simp only: isDouble_def)
qed

lemma fadd_ge:
  assumes c: "isDouble c" "0 < c" and d: "0 \<le> d"
  shows "c \<le> fadd c d"
proof -
  let ?x = "c + d"
  from c(1) obtain n :: int where n: "c = real_of_int n * ulp c" by (auto simp: isDouble_iff)
  have xpos: "0 < ?x" "c \<le> ?x" using c(2) d by simp_all
  have mono: "binade c \<le> binade ?x" using c(2) xpos(2) by (rule binade_mono)
  show ?thesis
  proof (cases "binade ?x = binade c")
    case True
    then have u: "ulp ?x = ulp c" by (simp add: ulp_def)
    from n have "c / ulp c = (real_of_int n * ulp c) / ulp c"
      by (rule arg_cong [where f = "\<lambda>z. z / ulp c"])
    then have "real_of_int n = c / ulp c" using ulp_pos [of c] by simp
    also have "\<dots> \<le> ?x / ulp c" using xpos(2) ulp_pos [of c] by (simp add: divide_right_mono)
    finally have "n \<le> roundEven (?x / ulp c)" by (rule roundEven_ge)
    then have "real_of_int n * ulp c \<le> real_of_int (roundEven (?x / ulp c)) * ulp c"
      using ulp_pos [of c] by (simp only: mult_le_cancel_right_pos of_int_le_iff)
    then show ?thesis using xpos(1) n by (simp add: fadd_def toDouble_def u)
  next
    case False
    then have gt: "binade c + 1 \<le> binade ?x" using mono by simp
    then have "- 1022 < binade ?x" using binade_ge [of c] by simp
    then have "2 powr real_of_int (binade ?x) \<le> \<bar>?x\<bar>"
      using xpos(1) by (intro binade_unclamped) simp_all
    then have "2 powr real_of_int (binade ?x) \<le> ?x" using xpos(1) by simp
    then have "2 powr real_of_int (binade ?x) \<le> toDouble ?x"
      using binade_ge [of ?x] by (intro toDouble_lower)
    moreover have "2 powr real_of_int (binade c + 1) \<le> 2 powr real_of_int (binade ?x)"
      using gt by (simp only: powr_le_cancel_iff of_int_le_iff)
    moreover have "c < 2 powr real_of_int (binade c + 1)"
      using binade_upper [of c] c(2) by simp
    ultimately have "c \<le> toDouble ?x" by linarith
    then show ?thesis by (simp only: fadd_def)
  qed
qed


lemma pow2_split53: "2 powr real_of_int (e + 1) = real_of_int (2 ^ 53) * 2 powr real_of_int (e - 52)"
proof -
  have "real_of_int (e + 1) = 53 + real_of_int (e - 52)" by simp
  then have "2 powr real_of_int (e + 1) = 2 powr 53 * 2 powr real_of_int (e - 52)"
    by (simp only: powr_add)
  then show ?thesis by simp
qed

lemma isDouble_zero: "isDouble 0"
  by (simp add: isDouble_def toDouble_def)

lemma toDouble_isDouble:
  assumes "0 \<le> x"
  shows "isDouble (toDouble x)"
proof (cases "x = 0")
  case True
  then show ?thesis by (simp add: toDouble_def isDouble_zero)
next
  case False
  then have pos: "0 < x" using assms by simp
  define e where "e = binade x"
  define u where "u = 2 powr real_of_int (e - 52)"
  define n where "n = roundEven (x / u)"
  define y where "y = real_of_int n * u"
  have upos: "0 < u" by (simp add: u_def)
  have ux: "ulp x = u" by (simp add: ulp_def u_def e_def)
  have ty: "toDouble x = y" using False by (simp add: toDouble_def ux y_def n_def)
  have e_ge: "- 1022 \<le> e" unfolding e_def by (rule binade_ge)
  have "x < 2 powr real_of_int (e + 1)"
    using binade_upper [OF False] pos by (simp add: e_def)
  then have "x < real_of_int (2 ^ 53) * u" by (simp only: pow2_split53 u_def)
  then have "x / u \<le> real_of_int (2 ^ 53)" using upos by (simp add: pos_divide_le_eq)
  then have n_le: "n \<le> 2 ^ 53" unfolding n_def by (rule roundEven_le)
  have "real_of_int 0 \<le> x / u" using pos upos by simp
  then have n_ge: "0 \<le> n" unfolding n_def by (rule roundEven_ge)
  consider "n = 0" | "n = 2 ^ 53" | "0 < n" "n < 2 ^ 53" using n_le n_ge by linarith
  then have "isDouble y"
  proof cases
    case 1
    then show ?thesis by (simp add: y_def isDouble_zero)
  next
    case 2
    then have y2: "y = 2 powr real_of_int (e + 1)" by (simp only: y_def pow2_split53 u_def)
    have "binade y = e + 1"
    proof (rule binade_eq)
      show "2 powr real_of_int (e + 1) \<le> \<bar>y\<bar>" by (simp add: y2)
      show "\<bar>y\<bar> < 2 powr real_of_int (e + 1 + 1)" by (simp add: y2)
      show "- 1022 \<le> e + 1" using e_ge by simp
    qed
    then have "ulp y = 2 powr real_of_int (e + 1 - 52)" by (simp add: ulp_def)
    moreover have "2 powr real_of_int (e + 1) = real_of_int (2 ^ 52) * 2 powr real_of_int (e + 1 - 52)"
      by (simp only: pow2_split [of "e + 1"] pow2_52)
    ultimately have "y = real_of_int (2 ^ 52) * ulp y" by (simp only: y2)
    then show ?thesis unfolding isDouble_iff by (rule exI)
  next
    case 3
    have ypos: "0 < y" using 3(1) upos by (simp add: y_def)
    have "real_of_int n < real_of_int (2 ^ 53)" using 3(2) by (simp only: of_int_less_iff)
    then have "y < real_of_int (2 ^ 53) * u" unfolding y_def using upos
      by (simp only: mult_less_cancel_right_pos)
    then have yub: "\<bar>y\<bar> < 2 powr real_of_int (e + 1)" using ypos
      by (simp only: pow2_split53 u_def abs_of_pos)
    have le: "binade y \<le> e" using ypos yub e_ge by (intro binade_le) simp_all
    have ge: "e \<le> binade y"
    proof (cases "e = - 1022")
      case True
      then show ?thesis using binade_ge [of y] by simp
    next
      case False
      then have "- 1022 < binade x" using e_ge by (simp add: e_def)
      then have "2 powr real_of_int (binade x) \<le> \<bar>x\<bar>"
        using \<open>x \<noteq> 0\<close> by (rule binade_unclamped)
      then have "2 powr real_of_int e \<le> x" using pos by (simp add: e_def)
      with e_ge have "2 powr real_of_int e \<le> toDouble x" by (rule toDouble_lower)
      then have "2 powr real_of_int e \<le> \<bar>y\<bar>" using ypos by (simp add: ty)
      with e_ge show ?thesis by (rule binade_lower(1))
    qed
    from le ge have "binade y = e" by simp
    then have "ulp y = u" by (simp add: ulp_def u_def)
    then have "y = real_of_int n * ulp y" by (simp add: y_def)
    then show ?thesis unfolding isDouble_iff by (rule exI)
  qed
  then show ?thesis by (simp only: ty)
qed

lemma fadd_isDouble: "0 \<le> a + b \<Longrightarrow> isDouble (fadd a b)"
  by (simp only: fadd_def toDouble_isDouble)


lemma toDouble_nonneg:
  assumes "0 \<le> x"
  shows "0 \<le> toDouble x"
proof (cases "x = 0")
  case True
  then show ?thesis by (simp add: toDouble_def)
next
  case False
  have "real_of_int 0 \<le> x / ulp x" using assms ulp_pos [of x] by simp
  then have "0 \<le> roundEven (x / ulp x)" by (rule roundEven_ge)
  then show ?thesis using False ulp_pos [of x] by (simp add: toDouble_def)
qed

lemma roundEven_eval:
  assumes "real_of_int f \<le> x" and "x < real_of_int f + 1 / 2"
  shows "roundEven x = f"
proof -
  have "\<lfloor>x\<rfloor> = f" using assms by (intro floor_unique) simp_all
  then show ?thesis using assms(2) by (simp add: roundEven_def Let_def)
qed

lemma toDouble_2: "toDouble 2 = 2"
proof -
  have "toDouble 2 = real_of_int (roundEven (2 / 2 powr real_of_int (1 - 52))) * 2 powr real_of_int (1 - 52)"
    by (rule toDouble_at) simp_all
  also have "2 / 2 powr real_of_int (1 - 52) = real_of_int (2 ^ 52)"
    by (simp add: powr_neg_numeral)
  finally show ?thesis by (simp only: roundEven_int) (simp add: powr_neg_numeral)
qed

lemma toDouble_frame: "toDouble (1 / 48000) = 6148914691236517 / 2 ^ 68"
proof -
  have "toDouble (1 / 48000) =
          real_of_int (roundEven ((1 / 48000) / 2 powr real_of_int (- 16 - 52))) * 2 powr real_of_int (- 16 - 52)"
    by (rule toDouble_at) (simp_all add: powr_neg_numeral)
  moreover have "roundEven ((1 / 48000) / 2 powr real_of_int (- 16 - 52)) = 6148914691236517"
    by (rule roundEven_eval) (simp_all add: powr_neg_numeral)
  ultimately show ?thesis by (simp add: powr_neg_numeral)
qed

lemma fadd_2_frame: "fadd 2 (6148914691236517 / 2 ^ 68) = 4503646539866614 / 2 ^ 51"
proof -
  let ?x = "2 + 6148914691236517 / 2 ^ 68 :: real"
  have "toDouble ?x =
          real_of_int (roundEven (?x / 2 powr real_of_int (1 - 52))) * 2 powr real_of_int (1 - 52)"
    by (rule toDouble_at) simp_all
  moreover have "roundEven (?x / 2 powr real_of_int (1 - 52)) = 4503646539866614"
    by (rule roundEven_eval) (simp_all add: powr_neg_numeral)
  ultimately show ?thesis by (simp add: fadd_def powr_neg_numeral)
qed

lemma fadd_frame_frame:
  "fadd (4503646539866614 / 2 ^ 51) (6148914691236517 / 2 ^ 68) = 4503693452362732 / 2 ^ 51"
proof -
  let ?x = "4503646539866614 / 2 ^ 51 + 6148914691236517 / 2 ^ 68 :: real"
  have "toDouble ?x =
          real_of_int (roundEven (?x / 2 powr real_of_int (1 - 52))) * 2 powr real_of_int (1 - 52)"
    by (rule toDouble_at) simp_all
  moreover have "roundEven (?x / 2 powr real_of_int (1 - 52)) = 4503693452362732"
    by (rule roundEven_eval) (simp_all add: powr_neg_numeral)
  ultimately show ?thesis by (simp add: fadd_def powr_neg_numeral)
qed

lemma roundEven_error: "\<bar>real_of_int (roundEven y) - y\<bar> \<le> 1 / 2"
proof -
  define f where "f = \<lfloor>y\<rfloor>"
  have b: "real_of_int f \<le> y" "y < real_of_int f + 1" unfolding f_def by linarith+
  have r: "roundEven y =
             (if y - real_of_int f < 1 / 2 then f
              else if 1 / 2 < y - real_of_int f then f + 1 else if even f then f else f + 1)"
    by (simp add: roundEven_def Let_def f_def)
  consider "y - real_of_int f < 1 / 2" | "1 / 2 < y - real_of_int f" | "y - real_of_int f = 1 / 2"
    by linarith
  then show ?thesis
  proof cases
    case 1
    then have "roundEven y = f" by (simp add: r)
    then show ?thesis using 1 b by simp
  next
    case 2
    then have "roundEven y = f + 1" by (simp add: r)
    then show ?thesis using 2 b by simp
  next
    case 3
    then have "roundEven y = f \<or> roundEven y = f + 1" by (simp add: r)
    then show ?thesis using 3 by auto
  qed
qed

text \<open>The rounded sum is within half a unit in the last place of the sum in the reals.\<close>

lemma toDouble_error: "\<bar>toDouble x - x\<bar> \<le> ulp x / 2"
proof (cases "x = 0")
  case True
  then show ?thesis using ulp_pos [of 0] by (simp add: toDouble_def)
next
  case False
  have "x = (x / ulp x) * ulp x" using ulp_pos [of x] by simp
  then have "toDouble x - x = (real_of_int (roundEven (x / ulp x)) - x / ulp x) * ulp x"
    using False by (simp add: toDouble_def left_diff_distrib)
  then have "\<bar>toDouble x - x\<bar> = \<bar>real_of_int (roundEven (x / ulp x)) - x / ulp x\<bar> * ulp x"
    using ulp_pos [of x] by (simp add: abs_mult)
  also have "\<dots> \<le> (1 / 2) * ulp x"
    using roundEven_error [of "x / ulp x"] ulp_pos [of x] by (simp only: mult_le_cancel_right_pos)
  finally show ?thesis by simp
qed

lemma roundEven_nearest: "\<bar>real_of_int (roundEven y) - y\<bar> \<le> \<bar>real_of_int m - y\<bar>"
proof -
  define f where "f = \<lfloor>y\<rfloor>"
  have b: "real_of_int f \<le> y" "y < real_of_int f + 1" unfolding f_def by linarith+
  have r: "roundEven y =
             (if y - real_of_int f < 1 / 2 then f
              else if 1 / 2 < y - real_of_int f then f + 1 else if even f then f else f + 1)"
    by (simp add: roundEven_def Let_def f_def)
  have lo: "\<bar>real_of_int (roundEven y) - y\<bar> \<le> y - real_of_int f"
    and hi: "\<bar>real_of_int (roundEven y) - y\<bar> \<le> real_of_int f + 1 - y"
    using b by (auto simp: r)
  consider "m \<le> f" | "f + 1 \<le> m" by linarith
  then show ?thesis
  proof cases
    case 1
    then have "real_of_int m \<le> real_of_int f" by simp
    then show ?thesis using lo b by linarith
  next
    case 2
    then have "real_of_int f + 1 \<le> real_of_int m" by (simp add: of_int_le_iff [symmetric] del: of_int_le_iff)
    then show ?thesis using hi b by linarith
  qed
qed

lemma toDouble_grid:
  "\<bar>toDouble x - x\<bar> \<le> \<bar>real_of_int m * ulp x - x\<bar>"
proof (cases "x = 0")
  case True
  then show ?thesis by (simp add: toDouble_def)
next
  case False
  have x: "x = (x / ulp x) * ulp x" using ulp_pos [of x] by simp
  have "toDouble x - x = (real_of_int (roundEven (x / ulp x)) - x / ulp x) * ulp x"
    using False x by (simp add: toDouble_def left_diff_distrib)
  then have 1: "\<bar>toDouble x - x\<bar> = \<bar>real_of_int (roundEven (x / ulp x)) - x / ulp x\<bar> * ulp x"
    using ulp_pos [of x] by (simp add: abs_mult)
  have "real_of_int m * ulp x - x = (real_of_int m - x / ulp x) * ulp x"
    using x by (simp add: left_diff_distrib)
  then have 2: "\<bar>real_of_int m * ulp x - x\<bar> = \<bar>real_of_int m - x / ulp x\<bar> * ulp x"
    using ulp_pos [of x] by (simp add: abs_mult)
  show ?thesis
    unfolding 1 2 using roundEven_nearest [of "x / ulp x" m] ulp_pos [of x]
    by (simp only: mult_le_cancel_right_pos)
qed

text \<open>The rounding returns a value of the format, and none of the format is nearer to
  its argument.\<close>

lemma toDouble_nearest:
  assumes "isDouble c"
  shows "\<bar>toDouble x - x\<bar> \<le> \<bar>c - x\<bar>"
proof (cases "x = 0 \<or> c = 0")
  case True
  then show ?thesis
  proof
    assume "x = 0"
    then show ?thesis by (simp add: toDouble_def)
  next
    assume "c = 0"
    then show ?thesis using toDouble_grid [of x 0] by simp
  qed
next
  case False
  then have x0: "x \<noteq> 0" and c0: "c \<noteq> 0" by simp_all
  from assms obtain n :: int where n: "c = real_of_int n * ulp c" by (auto simp: isDouble_iff)
  define e where "e = binade x"
  have lo: "\<bar>toDouble x - x\<bar> \<le> \<bar>real_of_int (2 ^ 52) * ulp x - x\<bar>"
    and lo': "\<bar>toDouble x - x\<bar> \<le> \<bar>real_of_int (- (2 ^ 52)) * ulp x - x\<bar>"
    and hi: "\<bar>toDouble x - x\<bar> \<le> \<bar>real_of_int (2 ^ 53) * ulp x - x\<bar>"
    and hi': "\<bar>toDouble x - x\<bar> \<le> \<bar>real_of_int (- (2 ^ 53)) * ulp x - x\<bar>"
    by (rule toDouble_grid)+
  have p52: "real_of_int (2 ^ 52) * ulp x = 2 powr real_of_int e"
    by (simp only: ulp_def e_def pow2_split [of "binade x"] pow2_52)
  have p53: "real_of_int (2 ^ 53) * ulp x = 2 powr real_of_int (e + 1)"
    by (simp only: ulp_def e_def pow2_split53 [of "binade x"])
  have m52: "real_of_int (- (2 ^ 52)) * ulp x = - (2 powr real_of_int e)"
    using p52 by simp
  have m53: "real_of_int (- (2 ^ 53)) * ulp x = - (2 powr real_of_int (e + 1))"
    using p53 by simp
  consider "binade c = e" | "binade c < e" | "e < binade c" by linarith
  then show ?thesis
  proof cases
    case 1
    then have "ulp c = ulp x" by (simp add: ulp_def e_def)
    then have "c = real_of_int n * ulp x" using n by simp
    then show ?thesis using toDouble_grid [of x n] by simp
  next
    case 2
    then have "- 1022 < binade x" using binade_ge [of c] by (simp add: e_def)
    then have xl: "2 powr real_of_int e \<le> \<bar>x\<bar>" unfolding e_def using x0 by (rule binade_unclamped)
    have "\<bar>c\<bar> < 2 powr real_of_int (binade c + 1)" using c0 by (rule binade_upper)
    moreover have "2 powr real_of_int (binade c + 1) \<le> 2 powr real_of_int e"
      using 2 by (simp only: powr_le_cancel_iff of_int_le_iff)
    ultimately have cl: "\<bar>c\<bar> < 2 powr real_of_int e" by linarith
    show ?thesis
    proof (cases "0 < x")
      case True
      then show ?thesis using lo xl cl unfolding p52 by linarith
    next
      case False
      then show ?thesis using lo' xl cl unfolding m52 by linarith
    qed
  next
    case 3
    then have "- 1022 < binade c" using binade_ge [of x] by (simp add: e_def)
    then have "2 powr real_of_int (binade c) \<le> \<bar>c\<bar>" using c0 by (rule binade_unclamped)
    moreover have "2 powr real_of_int (e + 1) \<le> 2 powr real_of_int (binade c)"
      using 3 by (simp only: powr_le_cancel_iff of_int_le_iff)
    ultimately have cl: "2 powr real_of_int (e + 1) \<le> \<bar>c\<bar>" by linarith
    have xl: "\<bar>x\<bar> < 2 powr real_of_int (e + 1)" unfolding e_def using x0 by (rule binade_upper)
    show ?thesis
    proof (cases "0 < c")
      case True
      then show ?thesis using hi xl cl unfolding p53 by linarith
    next
      case False
      then show ?thesis using hi' xl cl unfolding m53 by linarith
    qed
  qed
qed

lemma fadd_frame_frame_frame:
  "fadd (4503693452362732 / 2 ^ 51) (6148914691236517 / 2 ^ 68) = 4503740364858850 / 2 ^ 51"
proof -
  let ?x = "4503693452362732 / 2 ^ 51 + 6148914691236517 / 2 ^ 68 :: real"
  have "toDouble ?x =
          real_of_int (roundEven (?x / 2 powr real_of_int (1 - 52))) * 2 powr real_of_int (1 - 52)"
    by (rule toDouble_at) simp_all
  moreover have "roundEven (?x / 2 powr real_of_int (1 - 52)) = 4503740364858850"
    by (rule roundEven_eval) (simp_all add: powr_neg_numeral)
  ultimately show ?thesis by (simp add: fadd_def powr_neg_numeral)
qed

lemma toDouble_three_frames: "toDouble (96003 / 48000) = 4503740364858851 / 2 ^ 51"
proof -
  let ?x = "96003 / 48000 :: real"
  have "toDouble ?x =
          real_of_int (roundEven (?x / 2 powr real_of_int (1 - 52))) * 2 powr real_of_int (1 - 52)"
    by (rule toDouble_at) simp_all
  moreover have "roundEven (?x / 2 powr real_of_int (1 - 52)) = 4503740364858851"
    by (rule roundEven_eval) (simp_all add: powr_neg_numeral)
  ultimately show ?thesis by (simp add: powr_neg_numeral)
qed

section \<open>Properties of the playback engine\<close>


lemma map_filter_append: "List.map_filter f (xs @ ys) = List.map_filter f xs @ List.map_filter f ys"
  by (simp add: List.map_filter_def)

lemma effects_emit [simp]: "effects (emit x s) = effects s @ [x]"
  by (simp add: emit_def)

lemma emit_fields [simp]:
  "recordedChunks (emit x s) = recordedChunks s"
  "nextStartTime (emit x s) = nextStartTime s"
  "playbackState (emit x s) = playbackState s"
  "timerIntervalId (emit x s) = timerIntervalId s"
  "prompts (emit x s) = prompts s"
  "filteredPrompts (emit x s) = filteredPrompts s"
  "lastCall_setSessionPrompts (emit x s) = lastCall_setSessionPrompts s"
  "connectionError (emit x s) = connectionError s"
  by (simp_all add: emit_def)

lemma stopAudio_keeps: "recordedChunks (stopAudio s) = recordedChunks s"
  by (simp add: stopAudio_def Let_def)

lemma loadAudio_clears: "recordedChunks (loadAudio s) = []"
  by (simp add: loadAudio_def Let_def)

lemma handleReset_clears: "handleReset ok now s = Some s' \<Longrightarrow> recordedChunks s' = []"
  by (auto simp: handleReset_def Let_def split: if_splits option.splits)

lemma handlePlayPause_load:
  "playbackState s = paused \<or> playbackState s = stopped \<Longrightarrow> handlePlayPause ok now s = Some s' \<Longrightarrow>
   recordedChunks s' = [] \<and> playbackState s' = loading"
  by (auto simp: handlePlayPause_def loadAudio_def Let_def split: if_splits option.splits)


lemma onmessage_gated:
  "audioChunks e = Some chunks \<Longrightarrow> playbackState s = paused \<or> playbackState s = stopped \<Longrightarrow>
   onmessage now e s = onmessage now (e\<lparr>audioChunks := None\<rparr>) s"
  by (auto simp: onmessage_def Let_def emit_def split: option.splits)

lemma onmessage_noaudio_fields:
  "recordedChunks (onmessage now (e\<lparr>audioChunks := None\<rparr>) s) = recordedChunks s"
  "nextStartTime (onmessage now (e\<lparr>audioChunks := None\<rparr>) s) = nextStartTime s"
  "playbackState (onmessage now (e\<lparr>audioChunks := None\<rparr>) s) = playbackState s"
  "timerIntervalId (onmessage now (e\<lparr>audioChunks := None\<rparr>) s) = timerIntervalId s"
  "scheduled (onmessage now (e\<lparr>audioChunks := None\<rparr>) s) = scheduled s"
  "decoded (onmessage now (e\<lparr>audioChunks := None\<rparr>) s) = decoded s"
  "underruns (onmessage now (e\<lparr>audioChunks := None\<rparr>) s) = underruns s"
  by (auto simp: onmessage_def Let_def scheduled_def decoded_def underruns_def map_filter_append
      List.map_filter_def split: option.splits)

lemma onmessage_accepted:
  "audioChunks e = Some (data # rest) \<Longrightarrow> playbackState s = playing \<or> playbackState s = loading \<Longrightarrow>
   decodeAudioData data 48000 2 = Inr b \<Longrightarrow>
   onmessage now e s =
     onAudioBuffer now b (emit (DecodeAudioData data) (onmessage now (e\<lparr>audioChunks := None\<rparr>) s))"
  by (auto simp: onmessage_def Let_def split: option.splits)

lemma onmessage_undecodable:
  "audioChunks e = Some (data # rest) \<Longrightarrow> playbackState s = playing \<or> playbackState s = loading \<Longrightarrow>
   decodeAudioData data 48000 2 = Inl err \<Longrightarrow>
   onmessage now e s = emit (DecodeAudioData data) (onmessage now (e\<lparr>audioChunks := None\<rparr>) s)"
  by (auto simp: onmessage_def Let_def split: option.splits)

lemma onmessage_nochunk:
  "audioChunks e = Some [] \<Longrightarrow> onmessage now e s = onmessage now (e\<lparr>audioChunks := None\<rparr>) s"
  by (auto simp: onmessage_def Let_def split: option.splits)


lemma onAudioBuffer_underrun:
  assumes "cursor now s < now"
  shows "playbackState (onAudioBuffer now b s) = loading"
    and "nextStartTime (onAudioBuffer now b s) = 0"
    and "scheduled (onAudioBuffer now b s) = scheduled s"
    and "decoded (onAudioBuffer now b s) = decoded s"
    and "underruns (onAudioBuffer now b s) = Suc (underruns s)"
  using assms unfolding cursor_def bufferTime_def
  by (auto simp: onAudioBuffer_def Let_def scheduled_def decoded_def underruns_def
      map_filter_append List.map_filter_def bufferTime_def split: if_splits)

lemma onAudioBuffer_start:
  assumes "\<not> cursor now s < now"
  shows "playbackState (onAudioBuffer now b s) = playbackState s"
    and "nextStartTime (onAudioBuffer now b s) = cursor now s + duration b"
    and "scheduled (onAudioBuffer now b s) = scheduled s @ [(b, cursor now s)]"
    and "decoded (onAudioBuffer now b s) = decoded s"
    and "underruns (onAudioBuffer now b s) = underruns s"
  using assms unfolding cursor_def bufferTime_def
  by (auto simp: onAudioBuffer_def Let_def scheduled_def decoded_def underruns_def
      map_filter_append List.map_filter_def bufferTime_def split: if_splits)

lemma onAudioBuffer_recorded:
  "recordedChunks (onAudioBuffer now b s) =
     (if playbackState s = playing \<or> playbackState s = loading then recordedChunks s @ [b]
      else recordedChunks s)"
  by (simp add: onAudioBuffer_def Let_def)

lemma cursor_fresh: "nextStartTime s = 0 \<Longrightarrow> cursor now s = now + 2 \<and> \<not> cursor now s < now"
  by (simp add: cursor_def bufferTime_def)

lemma emit_observed [simp]:
  "scheduled (emit (DecodeAudioData d) s) = scheduled s"
  "decoded (emit (DecodeAudioData d) s) = decoded s @ [d]"
  "underruns (emit (DecodeAudioData d) s) = underruns s"
  "cursor now (emit x s) = cursor now s"
  by (simp_all add: scheduled_def decoded_def underruns_def map_filter_append List.map_filter_def cursor_def)

lemma noaudio_cursor [simp]: "cursor now (onmessage t (e\<lparr>audioChunks := None\<rparr>) s) = cursor now s"
  by (simp add: cursor_def onmessage_noaudio_fields)

lemma createBuffer_props:
  assumes "createBuffer n len r = Inr b"
  shows "numberOfChannels b = n" "0 < length_buf b" "sampleRate b = r" "wf_buffer b" "0 < n"
proof -
  have c: "\<not> (n = 0 \<or> unat (toUint32 len) = 0)"
    using assms by (cases "n = 0 \<or> unat (toUint32 len) = 0") (simp_all add: createBuffer_def)
  then have b: "b = \<lparr>numberOfChannels = n, length_buf = unat (toUint32 len), sampleRate = r,
                  channelData = replicate n (replicate (unat (toUint32 len)) 0)\<rparr>"
    using assms by (simp add: createBuffer_def)
  show "numberOfChannels b = n" "sampleRate b = r" by (simp_all add: b)
  show "0 < length_buf b" "0 < n" using c by (simp_all add: b)
  show "wf_buffer b" by (simp add: b wf_buffer_def list_all_length)
qed

lemma copyToChannel_props:
  assumes "copyToChannel src c b = Inr b'"
  shows "numberOfChannels b' = numberOfChannels b" "length_buf b' = length_buf b"
    "sampleRate b' = sampleRate b" "wf_buffer b \<Longrightarrow> wf_buffer b'"
proof -
  from assms have c: "c < numberOfChannels b"
    and b': "b' = b\<lparr>channelData := (channelData b)
                  [c := take (length_buf b) src @ drop (length src) (channelData b ! c)]\<rparr>"
    by (auto simp: copyToChannel_def split: if_splits)
  show "numberOfChannels b' = numberOfChannels b" "length_buf b' = length_buf b"
    "sampleRate b' = sampleRate b"
    by (simp_all add: b')
  show "wf_buffer b'" if wf: "wf_buffer b"
  proof -
    have "length (channelData b ! c) = length_buf b"
      using wf c by (simp add: wf_buffer_def list_all_length)
    then have new: "length (take (length_buf b) src @ drop (length src) (channelData b ! c)) = length_buf b"
      by simp
    have "length ((channelData b)[c := take (length_buf b) src @ drop (length src) (channelData b ! c)] ! k)
            = length_buf b" if "k < numberOfChannels b" for k
    proof (cases "k = c")
      case True
      then show ?thesis using wf that new by (simp only: wf_buffer_def nth_list_update_eq)
    next
      case False
      then show ?thesis using wf that by (simp add: wf_buffer_def list_all_length)
    qed
    then show ?thesis
      using wf by (simp add: wf_buffer_def b' list_all_length)
  qed
qed

lemma extractChannels_props:
  assumes "extractChannels f32 n cs b = Inr b'"
  shows "numberOfChannels b' = numberOfChannels b \<and> length_buf b' = length_buf b \<and>
         sampleRate b' = sampleRate b \<and> (wf_buffer b \<longrightarrow> wf_buffer b')"
  using assms
proof (induction cs arbitrary: b)
  case Nil
  then show ?case by simp
next
  case (Cons c cs)
  from Cons.prems obtain b1 where
    1: "copyToChannel (channelFilter f32 n c) c b = Inr b1" and 2: "extractChannels f32 n cs b1 = Inr b'"
    by (auto split: sum.splits)
  show ?case
    using Cons.IH [OF 2] copyToChannel_props [OF 1] by simp
qed

lemma decodeAudioData_props:
  assumes "decodeAudioData data r n = Inr b"
  shows "numberOfChannels b = n" "0 < length_buf b" "sampleRate b = r" "wf_buffer b"
proof -
  from assms obtain b0 f32 where
    b0: "createBuffer n (real (length data) / 2 / real n) r = Inr b0"
    and rest: "(if n = 0 then copyToChannel f32 0 b0 else extractChannels f32 n [0..<n] b0) = Inr b"
    by (auto simp: decodeAudioData_def split: sum.splits)
  have "numberOfChannels b = numberOfChannels b0 \<and> length_buf b = length_buf b0 \<and>
        sampleRate b = sampleRate b0 \<and> (wf_buffer b0 \<longrightarrow> wf_buffer b)"
  proof (cases "n = 0")
    case True
    then have "copyToChannel f32 0 b0 = Inr b" using rest by simp
    then show ?thesis using copyToChannel_props by blast
  next
    case False
    then have "extractChannels f32 n [0..<n] b0 = Inr b" using rest by simp
    then show ?thesis by (rule extractChannels_props)
  qed
  then show "numberOfChannels b = n" "0 < length_buf b" "sampleRate b = r" "wf_buffer b"
    using createBuffer_props [OF b0] by simp_all
qed

lemma decode_zero_channels: "decodeAudioData data r 0 = Inl NotSupportedError"
  by (simp add: decodeAudioData_def createBuffer_def)

lemma segment_duration:
  assumes "decodeAudioData data 48000 2 = Inr b"
  shows "0 < duration b"
  using decodeAudioData_props(2,3) [OF assms] by (simp add: duration_def)


lemma setSessionPrompts_pass:
  "200 \<le> now - lastCall_setSessionPrompts s \<Longrightarrow>
   setSessionPrompts now s = (emit (SetWeightedPrompts (promptsToSend s)) s)\<lparr>lastCall_setSessionPrompts := now\<rparr>"
  by (simp add: setSessionPrompts_def throttle_def setSessionPrompts_body_def)

lemma setSessionPrompts_drop:
  "now - lastCall_setSessionPrompts s < 200 \<Longrightarrow> setSessionPrompts now s = s"
  by (simp add: setSessionPrompts_def throttle_def)

lemma handlePromptChanged_drop:
  assumes "now - lastCall_setSessionPrompts s < 200"
  shows "submissions (handlePromptChanged now d s) = submissions s"
    and "lastCall_setSessionPrompts (handlePromptChanged now d s) = lastCall_setSessionPrompts s"
  using assms
  by (simp_all add: handlePromptChanged_def Let_def setSessionPrompts_drop submissions_def
      split: prod.splits)

lemma handlePromptChanged_pass:
  assumes "200 \<le> now - lastCall_setSessionPrompts s"
  shows "submissions (handlePromptChanged now d s) =
           submissions s @ [promptsToSend (handlePromptChanged now d s)]"
    and "lastCall_setSessionPrompts (handlePromptChanged now d s) = now"
  using assms
  by (simp_all add: handlePromptChanged_def Let_def setSessionPrompts_pass submissions_def
      map_filter_append List.map_filter_def promptsToSend_def emit_def split: prod.splits)

lemma promptChanges_window:
  assumes "\<forall>(t, d) \<in> set rs. t - lastCall_setSessionPrompts s < 200"
  shows "submissions (promptChanges rs s) = submissions s \<and>
         lastCall_setSessionPrompts (promptChanges rs s) = lastCall_setSessionPrompts s"
  using assms
proof (induction rs arbitrary: s)
  case Nil
  then show ?case by (simp add: promptChanges_def)
next
  case (Cons r rs)
  obtain t d where r: "r = (t, d)" by (cases r)
  have t: "t - lastCall_setSessionPrompts s < 200" using Cons.prems r by simp
  note h = handlePromptChanged_drop [OF t, of d]
  have "\<forall>(t', d') \<in> set rs. t' - lastCall_setSessionPrompts (handlePromptChanged t d s) < 200"
    using Cons.prems by (simp add: h(2))
  from Cons.IH [OF this] show ?case
    by (simp add: promptChanges_def r h)
qed

lemma leadTimerFired_fields [simp]:
  "nextStartTime (leadTimerFired now s) = nextStartTime s"
  "recordedChunks (leadTimerFired now s) = recordedChunks s"
  "effects (leadTimerFired now s) = effects s"
  "playbackState (leadTimerFired now s) = playing"
  by (simp_all add: leadTimerFired_def Let_def)

lemma leadTimerFired_observed [simp]:
  "scheduled (leadTimerFired now s) = scheduled s"
  "underruns (leadTimerFired now s) = underruns s"
  "cursor t (leadTimerFired now s) = cursor t s"
  by (simp_all add: scheduled_def underruns_def cursor_def)

lemma onmessage_no_segment:
  assumes acc: "playbackState s = playing \<or> playbackState s = loading"
    and none: "segmentOf e = None"
  shows "scheduled (onmessage now e s) = scheduled s \<and>
         nextStartTime (onmessage now e s) = nextStartTime s \<and>
         playbackState (onmessage now e s) = playbackState s \<and>
         underruns (onmessage now e s) = underruns s"
proof (cases "audioChunks e")
  case None
  then have "e\<lparr>audioChunks := None\<rparr> = e" by simp
  then show ?thesis using onmessage_noaudio_fields [of now e s] by simp
next
  case (Some chunks)
  show ?thesis
  proof (cases chunks)
    case Nil
    then show ?thesis
      using Some by (simp add: onmessage_nochunk onmessage_noaudio_fields)
  next
    case (Cons data rest)
    then have ch: "audioChunks e = Some (data # rest)" using Some by simp
    then obtain err where "decodeAudioData data 48000 2 = Inl err"
      using none by (auto simp: segmentOf_def split: sum.splits)
    from onmessage_undecodable [OF ch acc this] show ?thesis
      by (simp add: onmessage_noaudio_fields)
  qed
qed

lemma onmessage_segment:
  assumes acc: "playbackState s = playing \<or> playbackState s = loading"
    and some: "segmentOf e = Some b"
  shows "0 < duration b"
    and "cursor now s < now \<Longrightarrow> underruns (onmessage now e s) = Suc (underruns s)"
    and "\<not> cursor now s < now \<Longrightarrow>
           scheduled (onmessage now e s) = scheduled s @ [(b, cursor now s)] \<and>
           nextStartTime (onmessage now e s) = cursor now s + duration b \<and>
           playbackState (onmessage now e s) = playbackState s \<and>
           underruns (onmessage now e s) = underruns s"
proof -
  from some obtain data rest where ch: "audioChunks e = Some (data # rest)"
    and dec: "decodeAudioData data 48000 2 = Inr b"
    by (auto simp: segmentOf_def split: option.splits list.splits sum.splits)
  show "0 < duration b" by (rule segment_duration [OF dec])
  note eq = onmessage_accepted [OF ch acc dec, of now]
  let ?s3 = "emit (DecodeAudioData data) (onmessage now (e\<lparr>audioChunks := None\<rparr>) s)"
  have c: "cursor now ?s3 = cursor now s" by simp
  show "underruns (onmessage now e s) = Suc (underruns s)" if "cursor now s < now"
    using that onAudioBuffer_underrun(5) [of now ?s3 b]
    by (simp add: eq onmessage_noaudio_fields)
  show "scheduled (onmessage now e s) = scheduled s @ [(b, cursor now s)] \<and>
           nextStartTime (onmessage now e s) = cursor now s + duration b \<and>
           playbackState (onmessage now e s) = playbackState s \<and>
           underruns (onmessage now e s) = underruns s" if "\<not> cursor now s < now"
    using that onAudioBuffer_start [of now ?s3 b]
    by (simp add: eq onmessage_noaudio_fields)
qed

lemma underruns_onmessage: "underruns s \<le> underruns (onmessage now e s)"
proof (cases "playbackState s = playing \<or> playbackState s = loading")
  case True
  show ?thesis
  proof (cases "segmentOf e")
    case None
    then show ?thesis using onmessage_no_segment [OF True None, of now] by simp
  next
    case (Some b)
    then show ?thesis
      using onmessage_segment(2,3) [OF True Some, of now] by (cases "cursor now s < now") simp_all
  qed
next
  case False
  then have g: "playbackState s = paused \<or> playbackState s = stopped"
    by (cases "playbackState s") simp_all
  show ?thesis
  proof (cases "audioChunks e")
    case None
    then have "e\<lparr>audioChunks := None\<rparr> = e" by simp
    then show ?thesis using onmessage_noaudio_fields(7) [of now e s] by simp
  next
    case (Some chunks)
    then show ?thesis
      by (simp add: onmessage_gated [OF Some g] onmessage_noaudio_fields)
  qed
qed

subsection \<open>The handler in double precision\<close>

lemma onmessage_f64_accepted:
  "audioChunks e = Some (data # rest) \<Longrightarrow> playbackState s = playing \<or> playbackState s = loading \<Longrightarrow>
   decodeAudioData data 48000 2 = Inr b \<Longrightarrow>
   onmessage_f64 now e s =
     onAudioBuffer_f64 now b (emit (DecodeAudioData data) (onmessage now (e\<lparr>audioChunks := None\<rparr>) s))"
  by (auto simp: onmessage_def onmessage_f64_def Let_def split: option.splits)

text \<open>The two handlers differ only where a segment is decoded in an accepting state.\<close>

lemma onmessage_f64_other:
  assumes "segmentOf e = None \<or> playbackState s = paused \<or> playbackState s = stopped"
  shows "onmessage_f64 now e s = onmessage now e s"
  using assms
  by (auto simp: onmessage_def onmessage_f64_def segmentOf_def Let_def
      split: option.splits list.splits sum.splits)

lemma onAudioBuffer_f64_underrun:
  assumes "cursor_f64 now s < now"
  shows "playbackState (onAudioBuffer_f64 now b s) = loading"
    and "nextStartTime (onAudioBuffer_f64 now b s) = 0"
    and "scheduled (onAudioBuffer_f64 now b s) = scheduled s"
    and "underruns (onAudioBuffer_f64 now b s) = Suc (underruns s)"
  using assms unfolding cursor_f64_def bufferTime_def
  by (auto simp: onAudioBuffer_f64_def Let_def scheduled_def underruns_def
      map_filter_append List.map_filter_def bufferTime_def split: if_splits)

lemma onAudioBuffer_f64_start:
  assumes "\<not> cursor_f64 now s < now"
  shows "playbackState (onAudioBuffer_f64 now b s) = playbackState s"
    and "nextStartTime (onAudioBuffer_f64 now b s) = fadd (cursor_f64 now s) (duration_f64 b)"
    and "scheduled (onAudioBuffer_f64 now b s) = scheduled s @ [(b, cursor_f64 now s)]"
    and "underruns (onAudioBuffer_f64 now b s) = underruns s"
  using assms unfolding cursor_f64_def bufferTime_def
  by (auto simp: onAudioBuffer_f64_def Let_def scheduled_def underruns_def
      map_filter_append List.map_filter_def bufferTime_def split: if_splits)

lemma onAudioBuffer_f64_recorded:
  "recordedChunks (onAudioBuffer_f64 now b s) =
     (if playbackState s = playing \<or> playbackState s = loading then recordedChunks s @ [b]
      else recordedChunks s)"
  by (simp add: onAudioBuffer_f64_def Let_def)

lemma cursor_f64_observed [simp]:
  "cursor_f64 now (emit x s) = cursor_f64 now s"
  "cursor_f64 now (onmessage t (e\<lparr>audioChunks := None\<rparr>) s) = cursor_f64 now s"
  "cursor_f64 now (leadTimerFired t s) = cursor_f64 now s"
  by (simp_all add: cursor_f64_def onmessage_noaudio_fields)

lemma onmessage_f64_no_segment:
  assumes acc: "playbackState s = playing \<or> playbackState s = loading"
    and none: "segmentOf e = None"
  shows "scheduled (onmessage_f64 now e s) = scheduled s \<and>
         nextStartTime (onmessage_f64 now e s) = nextStartTime s \<and>
         playbackState (onmessage_f64 now e s) = playbackState s \<and>
         underruns (onmessage_f64 now e s) = underruns s"
proof -
  have "onmessage_f64 now e s = onmessage now e s"
    using none by (intro onmessage_f64_other) simp
  then show ?thesis using onmessage_no_segment [OF acc none, of now] by simp
qed

lemma onmessage_f64_segment:
  assumes acc: "playbackState s = playing \<or> playbackState s = loading"
    and some: "segmentOf e = Some b"
  shows "cursor_f64 now s < now \<Longrightarrow>
           scheduled (onmessage_f64 now e s) = scheduled s \<and>
           nextStartTime (onmessage_f64 now e s) = 0 \<and>
           playbackState (onmessage_f64 now e s) = loading \<and>
           underruns (onmessage_f64 now e s) = Suc (underruns s)"
    and "\<not> cursor_f64 now s < now \<Longrightarrow>
           scheduled (onmessage_f64 now e s) = scheduled s @ [(b, cursor_f64 now s)] \<and>
           nextStartTime (onmessage_f64 now e s) = fadd (cursor_f64 now s) (duration_f64 b) \<and>
           playbackState (onmessage_f64 now e s) = playbackState s \<and>
           underruns (onmessage_f64 now e s) = underruns s"
    and "recordedChunks (onmessage_f64 now e s) = recordedChunks s @ [b]"
proof -
  from some obtain data rest where ch: "audioChunks e = Some (data # rest)"
    and dec: "decodeAudioData data 48000 2 = Inr b"
    by (auto simp: segmentOf_def split: option.splits list.splits sum.splits)
  note eq = onmessage_f64_accepted [OF ch acc dec, of now]
  let ?s3 = "emit (DecodeAudioData data) (onmessage now (e\<lparr>audioChunks := None\<rparr>) s)"
  have c: "cursor_f64 now ?s3 = cursor_f64 now s" by simp
  show "scheduled (onmessage_f64 now e s) = scheduled s \<and>
           nextStartTime (onmessage_f64 now e s) = 0 \<and>
           playbackState (onmessage_f64 now e s) = loading \<and>
           underruns (onmessage_f64 now e s) = Suc (underruns s)" if "cursor_f64 now s < now"
    using that onAudioBuffer_f64_underrun [of now ?s3 b]
    by (simp add: eq onmessage_noaudio_fields)
  show "scheduled (onmessage_f64 now e s) = scheduled s @ [(b, cursor_f64 now s)] \<and>
           nextStartTime (onmessage_f64 now e s) = fadd (cursor_f64 now s) (duration_f64 b) \<and>
           playbackState (onmessage_f64 now e s) = playbackState s \<and>
           underruns (onmessage_f64 now e s) = underruns s" if "\<not> cursor_f64 now s < now"
    using that onAudioBuffer_f64_start [of now ?s3 b]
    by (simp add: eq onmessage_noaudio_fields)
  show "recordedChunks (onmessage_f64 now e s) = recordedChunks s @ [b]"
    using acc by (simp add: eq onAudioBuffer_f64_recorded onmessage_noaudio_fields)
qed

lemma duration_f64_nonneg: "0 \<le> duration_f64 b"
  unfolding duration_f64_def by (rule toDouble_nonneg) simp

lemma cursor_f64_props:
  assumes "0 \<le> now" and "0 \<le> nextStartTime s" and "isDouble (nextStartTime s)"
  shows "0 < cursor_f64 now s" and "isDouble (cursor_f64 now s)"
proof -
  have "2 powr real_of_int 1 \<le> now + 2" using assms(1) by simp
  then have "2 powr real_of_int 1 \<le> toDouble (now + 2)" by (intro toDouble_lower) simp_all
  then have lead: "0 < fadd now 2" by (simp add: fadd_def)
  have grid: "isDouble (fadd now 2)" using assms(1) by (intro fadd_isDouble) simp
  show "0 < cursor_f64 now s" using lead assms(2) by (simp add: cursor_f64_def bufferTime_def)
  show "isDouble (cursor_f64 now s)" using grid assms(3) by (simp add: cursor_f64_def bufferTime_def)
qed

lemma cursor_f64_advance:
  assumes "0 \<le> now" and "0 \<le> nextStartTime s" and "isDouble (nextStartTime s)"
  shows "0 < fadd (cursor_f64 now s) (duration_f64 b)"
    and "isDouble (fadd (cursor_f64 now s) (duration_f64 b))"
    and "cursor_f64 now s \<le> fadd (cursor_f64 now s) (duration_f64 b)"
proof -
  note c = cursor_f64_props [OF assms]
  show ge: "cursor_f64 now s \<le> fadd (cursor_f64 now s) (duration_f64 b)"
    using c(2,1) duration_f64_nonneg by (rule fadd_ge)
  then show "0 < fadd (cursor_f64 now s) (duration_f64 b)" using c(1) by linarith
  have "0 \<le> cursor_f64 now s + duration_f64 b" using c(1) duration_f64_nonneg [of b] by linarith
  then show "isDouble (fadd (cursor_f64 now s) (duration_f64 b))" by (rule fadd_isDouble)
qed

lemma underruns_step: "underruns s \<le> underruns (step ev s)"
proof (cases ev)
  case (LeadTimer now)
  then show ?thesis by simp
next
  case (Message now e)
  have "underruns s \<le> underruns (onmessage_f64 now e s)"
  proof (cases "segmentOf e = None \<or> playbackState s = paused \<or> playbackState s = stopped")
    case True
    then have "onmessage_f64 now e s = onmessage now e s" by (rule onmessage_f64_other)
    then show ?thesis using underruns_onmessage [of s now e] by simp
  next
    case False
    then obtain b where some: "segmentOf e = Some b" by auto
    from False have acc: "playbackState s = playing \<or> playbackState s = loading"
      by (cases "playbackState s") simp_all
    show ?thesis
      using onmessage_f64_segment(1,2) [OF acc some, of now]
      by (cases "cursor_f64 now s < now") simp_all
  qed
  then show ?thesis using Message by simp
qed

lemma underruns_run: "underruns s \<le> underruns (run es s)"
proof (induction es arbitrary: s)
  case Nil
  then show ?case by (simp add: run_def)
next
  case (Cons ev es)
  have "underruns s \<le> underruns (step ev s)" by (rule underruns_step)
  also have "\<dots> \<le> underruns (run es (step ev s))" by (rule Cons.IH)
  finally show ?case by (simp add: run_def)
qed

lemma gapless_nth:
  "Suc k < length ds \<Longrightarrow> gapless c ds ! Suc k = fadd (gapless c ds ! k) (ds ! k)"
proof (induction ds arbitrary: c k)
  case Nil
  then show ?case by simp
next
  case (Cons d ds)
  show ?case
  proof (cases k)
    case 0
    then show ?thesis using Cons.prems by (cases ds) simp_all
  next
    case (Suc j)
    then show ?thesis using Cons.prems Cons.IH [of j "fadd c d"] by simp
  qed
qed

lemma gapless_length [simp]: "length (gapless c ds) = length ds"
  by (induction ds arbitrary: c) simp_all

lemma gapless_sorted:
  assumes "isDouble c" and "0 < c" and "\<forall>d \<in> set ds. 0 \<le> d" and "Suc k < length ds"
  shows "gapless c ds ! k \<le> gapless c ds ! Suc k"
  using assms
proof (induction ds arbitrary: c k)
  case Nil
  then show ?case by simp
next
  case (Cons d ds)
  have d: "0 \<le> d" using Cons.prems(3) by simp
  have ge: "c \<le> fadd c d" using Cons.prems(1,2) d by (rule fadd_ge)
  show ?case
  proof (cases k)
    case 0
    then show ?thesis using Cons.prems(4) ge by (cases ds) simp_all
  next
    case (Suc j)
    have 1: "isDouble (fadd c d)" using Cons.prems(2) d by (intro fadd_isDouble) simp
    have 2: "0 < fadd c d" using Cons.prems(2) ge by linarith
    have 3: "\<forall>d \<in> set ds. 0 \<le> d" using Cons.prems(3) by simp
    have 4: "Suc j < length ds" using Cons.prems(4) Suc by simp
    from Cons.IH [OF 1 2 3 4] show ?thesis by (simp add: Suc)
  qed
qed

lemma run_Cons: "run (ev # es) s = run es (step ev s)"
  by (simp add: run_def)

lemma startCursor_cong:
  "nextStartTime s' = nextStartTime s \<Longrightarrow> startCursor s' es = startCursor s es"
  by (cases "segments es") (auto simp: startCursor_def cursor_f64_def)

lemma startCursor_skip:
  "segments (ev # es) = segments es \<Longrightarrow> startCursor s (ev # es) = startCursor s es"
  by (simp add: startCursor_def)

lemma segments_clock:
  "(t, b) \<in> set (segments es) \<Longrightarrow> \<exists>ev \<in> set es. clock ev = t"
proof (induction es)
  case Nil
  then show ?case by simp
next
  case (Cons ev es)
  show ?case
  proof (cases ev)
    case (LeadTimer now)
    then show ?thesis using Cons by auto
  next
    case (Message now e)
    then show ?thesis using Cons by (cases "segmentOf e") auto
  qed
qed

lemma startCursor_props:
  assumes "0 \<le> nextStartTime s" and "isDouble (nextStartTime s)"
    and "\<forall>ev \<in> set es. 0 \<le> clock ev" and "segments es \<noteq> []"
  shows "0 < startCursor s es" and "isDouble (startCursor s es)"
proof -
  from assms(4) obtain t b rest where segs: "segments es = (t, b) # rest"
    by (cases "segments es") auto
  then have "(t, b) \<in> set (segments es)" by simp
  then obtain ev where "ev \<in> set es" "clock ev = t" using segments_clock by blast
  then have t: "0 \<le> t" using assms(3) by auto
  have sc: "startCursor s es = cursor_f64 t s" by (simp add: startCursor_def segs)
  show "0 < startCursor s es" "isDouble (startCursor s es)"
    unfolding sc by (rule cursor_f64_props [OF t assms(1,2)])+
qed

lemma run_schedule:
  assumes "playbackState s = playing \<or> playbackState s = loading"
    and "0 \<le> nextStartTime s"
    and "isDouble (nextStartTime s)"
    and "\<forall>ev \<in> set es. 0 \<le> clock ev"
    and "underruns (run es s) = underruns s"
  shows "scheduled (run es s) =
           scheduled s @ zip (map snd (segments es))
                             (gapless (startCursor s es) (map (\<lambda>p. duration_f64 (snd p)) (segments es))) \<and>
         nextStartTime (run es s) =
           foldl fadd (startCursor s es) (map (\<lambda>p. duration_f64 (snd p)) (segments es)) \<and>
         (playbackState (run es s) = playing \<or> playbackState (run es s) = loading)"
  using assms
proof (induction es arbitrary: s)
  case Nil
  then show ?case by (simp add: run_def startCursor_def)
next
  case (Cons ev es)
  let ?s' = "step ev s"
  have mono: "underruns ?s' \<le> underruns (run es ?s')" by (rule underruns_run)
  have nu: "underruns (run es ?s') = underruns s"
    using Cons.prems(5) by (simp only: run_Cons)
  have clk: "\<forall>ev \<in> set es. 0 \<le> clock ev" using Cons.prems(4) by simp
  have skip: ?case
    if acc': "playbackState ?s' = playing \<or> playbackState ?s' = loading"
      and same: "nextStartTime ?s' = nextStartTime s" "scheduled ?s' = scheduled s"
        "underruns ?s' = underruns s" "segments (ev # es) = segments es"
  proof -
    have nn': "0 \<le> nextStartTime ?s'" using Cons.prems(2) by (simp only: same)
    have gr': "isDouble (nextStartTime ?s')" using Cons.prems(3) by (simp only: same)
    have nu': "underruns (run es ?s') = underruns ?s'" using nu by (simp only: same)
    have sc: "startCursor ?s' es = startCursor s (ev # es)"
      by (simp only: startCursor_skip [OF same(4)] startCursor_cong [OF same(1)])
    from Cons.IH [OF acc' nn' gr' clk nu'] show ?thesis
      by (simp only: run_Cons same(2,4) sc)
  qed
  show ?case
  proof (cases ev)
    case (LeadTimer now)
    show ?thesis
      by (rule skip) (simp_all add: LeadTimer)
  next
    case (Message now e)
    show ?thesis
    proof (cases "segmentOf e")
      case None
      note f = onmessage_f64_no_segment [OF Cons.prems(1) None, of now]
      show ?thesis
        by (rule skip) (use f Cons.prems(1) in \<open>simp_all add: Message None\<close>)
    next
      case (Some b)
      note f = onmessage_f64_segment(1,2) [OF Cons.prems(1) Some, of now]
      have now: "0 \<le> now" using Cons.prems(4) Message by simp
      have nolate: "\<not> cursor_f64 now s < now"
      proof
        assume "cursor_f64 now s < now"
        from f(1) [OF this] have "underruns ?s' = Suc (underruns s)" by (simp add: Message)
        with mono nu show False by simp
      qed
      note g = f(2) [OF nolate]
      have g1: "scheduled ?s' = scheduled s @ [(b, cursor_f64 now s)]"
        and g2: "nextStartTime ?s' = fadd (cursor_f64 now s) (duration_f64 b)"
        and g3: "playbackState ?s' = playbackState s"
        and g4: "underruns ?s' = underruns s"
        using g by (simp_all add: Message)
      note adv = cursor_f64_advance [OF now Cons.prems(2,3), of b]
      have next_pos: "0 < nextStartTime ?s'" using adv(1) by (simp only: g2)
      have acc': "playbackState ?s' = playing \<or> playbackState ?s' = loading"
        using Cons.prems(1) by (simp only: g3)
      have nn': "0 \<le> nextStartTime ?s'" using next_pos by simp
      have gr': "isDouble (nextStartTime ?s')" using adv(2) by (simp only: g2)
      have nu': "underruns (run es ?s') = underruns ?s'" using nu by (simp only: g4)
      note ih = Cons.IH [OF acc' nn' gr' clk nu']
      have sc: "startCursor ?s' es = fadd (cursor_f64 now s) (duration_f64 b)"
        using next_pos g2
        by (cases "segments es") (auto simp: startCursor_def cursor_f64_def)
      have sc0: "startCursor s (ev # es) = cursor_f64 now s"
        by (simp add: startCursor_def Message Some)
      have segs: "segments (ev # es) = (now, b) # segments es"
        by (simp add: Message Some)
      show ?thesis
        using ih unfolding run_Cons sc sc0 segs g1 by simp
    qed
  qed
qed

lemma fold_leadTimer:
  "nextStartTime (fold leadTimerFired ts s) = nextStartTime s"
  "scheduled (fold leadTimerFired ts s) = scheduled s"
  "recordedChunks (fold leadTimerFired ts s) = recordedChunks s"
  by (induction ts arbitrary: s) simp_all

lemma fold_leadTimer_accepting:
  "playbackState s = playing \<or> playbackState s = loading \<Longrightarrow>
   playbackState (fold leadTimerFired ts s) = playing \<or>
   playbackState (fold leadTimerFired ts s) = loading"
  by (induction ts arbitrary: s) simp_all

lemma decodeSamples_one_frame:
  "decodeSamples [a, b, c, d] =
     Inr [real_of_int (sint (word16_of_bytes a b)) / 32768, real_of_int (sint (word16_of_bytes c d)) / 32768]"
  by (simp add: decodeSamples_def Int16Array_def dataFloat32_def)

lemma createBuffer_one_frame:
  "createBuffer 2 (real (length [a, b, c, d]) / 2 / real 2) r =
     Inr \<lparr>numberOfChannels = 2, length_buf = 1, sampleRate = r, channelData = [[0], [0]]\<rparr>"
  by (simp add: createBuffer_def toUint32_def toInteger_def numeral_2_eq_2)

lemma channelFilter_pair: "channelFilter [x, y] 2 0 = [x]" "channelFilter [x, y] 2 (Suc 0) = [y]"
  by (simp_all add: channelFilter_def upt_conv_Cons)

lemma decodeAudioData_one_frame:
  "decodeAudioData [a, b, c, d] r 2 =
     Inr \<lparr>numberOfChannels = 2, length_buf = 1, sampleRate = r,
          channelData = [[real_of_int (sint (word16_of_bytes a b)) / 32768],
                         [real_of_int (sint (word16_of_bytes c d)) / 32768]]\<rparr>"
  unfolding decodeAudioData_def decodeSamples_one_frame createBuffer_one_frame
  by (simp add: channelFilter_pair copyToChannel_def upt_conv_Cons)

lemma w16_zero: "sint (word16_of_bytes 0 0) = 0"
  by (simp add: word16_of_bytes_def)

lemma segmentOf_silent: "segmentOf silentMessage = Some silentFrame"
  by (simp add: segmentOf_def silentMessage_def decodeAudioData_one_frame w16_zero silentFrame_def)

lemma duration_silent: "duration silentFrame = 1 / 48000"
  by (simp add: duration_def silentFrame_def)










subsection \<open>De-interleaving\<close>

text \<open>For a nonzero channel count, frame \<open>i\<close> of channel \<open>c\<close> of the decoded buffer is
  sample \<open>i * n + c\<close> of the interleaved stream: sample \<open>k\<close> goes to channel
  \<open>k mod n\<close>.\<close>

lemma div_step: "x < n \<Longrightarrow> (q * n + x) div n = (q::nat)"
  by simp

lemma filter_mod_upt_aux:
  assumes n: "n = Suc (c + d)"
  shows "filter (\<lambda>k. k mod n = c) [0..<L] = map (\<lambda>i. i * n + c) [0..<(L + d) div n]"
proof (induction L)
  case 0
  have "d div n = 0" using n by simp
  then show ?case by simp
next
  case (Suc L)
  define q where "q = L div n"
  define r where "r = L mod n"
  have L: "L = q * n + r" using div_mult_mod_eq [of L n] by (simp add: q_def r_def)
  have r: "r < n" using n by (simp add: r_def)
  show ?case
  proof (cases "r = c")
    case True
    have cd: "c + d < n" "0 < n" by (simp_all add: n)
    have "L + d = q * n + (c + d)" by (simp add: L True)
    then have m: "(L + d) div n = q" by (simp only: div_step [OF cd(1)])
    have "Suc L + d = Suc q * n" by (simp add: L True n)
    then have m': "(Suc L + d) div n = Suc q" using cd(2) by (simp only: nonzero_mult_div_cancel_right)
    have "filter (\<lambda>k. k mod n = c) [0..<Suc L] = filter (\<lambda>k. k mod n = c) [0..<L] @ [L]"
      using True by (simp add: r_def)
    also have "\<dots> = map (\<lambda>i. i * n + c) [0..<q] @ [q * n + c]"
      using Suc.IH by (simp only: m) (simp add: L True)
    also have "\<dots> = map (\<lambda>i. i * n + c) [0..<Suc q]" by simp
    finally show ?thesis by (simp only: m')
  next
    case False
    have same: "(Suc L + d) div n = (L + d) div n"
    proof (cases "r < c")
      case True
      have a: "L + d = q * n + (r + d)" "Suc L + d = q * n + Suc (r + d)"
        by (simp_all add: L)
      have "r + d < n" "Suc (r + d) < n" using True n by simp_all
      then show ?thesis unfolding a by (simp only: div_step)
    next
      case False
      then have "c < r" using \<open>r \<noteq> c\<close> by simp
      then obtain e where e: "r = Suc (c + e)" by (metis less_iff_Suc_add)
      have a: "L + d = (q + 1) * n + e" "Suc L + d = (q + 1) * n + Suc e"
        by (simp_all add: L e n)
      have "e < n" "Suc e < n" using r e n by simp_all
      then show ?thesis unfolding a by (simp only: div_step)
    qed
    have "filter (\<lambda>k. k mod n = c) [0..<Suc L] = filter (\<lambda>k. k mod n = c) [0..<L]"
      using False by (simp add: r_def)
    then show ?thesis using Suc.IH by (simp only: same)
  qed
qed

lemma channelFilter_nth:
  assumes "c < n" "i * n + c < length f32"
  shows "i < length (channelFilter f32 n c)" "channelFilter f32 n c ! i = f32 ! (i * n + c)"
proof -
  from assms(1) obtain d where n: "n = Suc (c + d)" by (metis less_iff_Suc_add)
  let ?m = "(length f32 + d) div n"
  have cf: "channelFilter f32 n c = map (\<lambda>k. f32 ! k) (map (\<lambda>i. i * n + c) [0..<?m])"
    by (simp only: channelFilter_def filter_mod_upt_aux [OF n])
  have "Suc i * n \<le> length f32 + d" using assms(2) n by simp
  then have "Suc i \<le> ?m" using n
    by (metis div_le_mono div_mult_self_is_m zero_less_Suc)
  then have i: "i < ?m" by simp
  show "i < length (channelFilter f32 n c)" using i by (simp add: cf)
  show "channelFilter f32 n c ! i = f32 ! (i * n + c)" using i by (simp add: cf)
qed


lemma int16_pairs_length: "length (int16_pairs bs) = length bs div 2"
  by (induction bs rule: int16_pairs.induct) simp_all

lemma decodeSamples_length:
  "decodeSamples data = Inr f32 \<Longrightarrow> length f32 = length data div 2"
  by (auto simp: decodeSamples_def Int16Array_def dataFloat32_def int16_pairs_length
      split: if_splits)

lemma toUint32_quotient:
  "unat (toUint32 (real len / 2 / real n)) \<le> len div (2 * n)"
proof -
  have eq: "real len / 2 / real n = real len / real (2 * n)" by simp
  have "0 \<le> real len / real (2 * n)" by (rule divide_nonneg_nonneg) simp_all
  then have "\<not> real len / 2 / real n < 0" by (simp only: eq not_less)
  then have "toInteger (real len / 2 / real n) = \<lfloor>real len / real (2 * n)\<rfloor>"
    by (simp only: toInteger_def eq if_False)
  then have "toInteger (real len / 2 / real n) = int (len div (2 * n))"
    by (simp only: floor_divide_of_nat_eq)
  then have "toUint32 (real len / 2 / real n) = word_of_nat (len div (2 * n))"
    by (simp add: toUint32_def)
  then show ?thesis by (simp only: unat_of_nat32) simp
qed

lemma extractChannels_nth:
  assumes "extractChannels f32 n cs b0 = Inr b"
    and "wf_buffer b0" and "distinct cs"
    and "c < numberOfChannels b0"
  shows "channelData b ! c =
           (if c \<in> set cs
            then take (length_buf b0) (channelFilter f32 n c)
                   @ drop (length (channelFilter f32 n c)) (channelData b0 ! c)
            else channelData b0 ! c)"
  using assms
proof (induction cs arbitrary: b0)
  case Nil
  then show ?case by simp
next
  case (Cons a cs)
  from Cons.prems(1) obtain b1 where
    1: "copyToChannel (channelFilter f32 n a) a b0 = Inr b1" and 2: "extractChannels f32 n cs b1 = Inr b"
    by (auto split: sum.splits)
  note p = copyToChannel_props [OF 1]
  have a: "a < numberOfChannels b0"
    and b1: "b1 = b0\<lparr>channelData := (channelData b0)
                  [a := take (length_buf b0) (channelFilter f32 n a)
                     @ drop (length (channelFilter f32 n a)) (channelData b0 ! a)]\<rparr>"
    using 1 by (auto simp: copyToChannel_def split: if_splits)
  have wf1: "wf_buffer b1" using p(4) Cons.prems(2) by simp
  have d: "distinct cs" "a \<notin> set cs" using Cons.prems(3) by simp_all
  have c1: "c < numberOfChannels b1" using Cons.prems(4) p(1) by simp
  note ih = Cons.IH [OF 2 wf1 d(1) c1]
  have len: "length (channelData b0) = numberOfChannels b0"
    using Cons.prems(2) by (simp add: wf_buffer_def)
  show ?case
  proof (cases "c = a")
    case True
    then show ?thesis using ih d(2) a len by (simp add: b1 p(2))
  next
    case False
    then show ?thesis using ih by (simp add: b1 p(2))
  qed
qed

lemma decodeAudioData_deinterleave:
  assumes dec: "decodeAudioData data r n = Inr b"
    and smp: "decodeSamples data = Inr f32"
    and c: "c < n" and i: "i < length_buf b"
  shows "i * n + c < length f32 \<and> channelData b ! c ! i = f32 ! (i * n + c)"
proof -
  have n: "n \<noteq> 0" using c by simp
  from dec smp obtain b0 where
    b0: "createBuffer n (real (length data) / 2 / real n) r = Inr b0"
    and ex: "extractChannels f32 n [0..<n] b0 = Inr b"
    using n by (auto simp: decodeAudioData_def split: sum.splits)
  note p0 = createBuffer_props [OF b0]
  note pe = extractChannels_props [OF ex]
  have lb: "length_buf b0 = unat (toUint32 (real (length data) / 2 / real n))"
    using b0 by (auto simp: createBuffer_def split: if_splits)
  have N: "length_buf b = length_buf b0" using pe by simp
  have "length_buf b \<le> length data div (2 * n)"
    unfolding N lb by (rule toUint32_quotient)
  then have "Suc i \<le> length data div (2 * n)" using i by simp
  then have "Suc i * (2 * n) \<le> length data div (2 * n) * (2 * n)"
    by (rule mult_le_mono1)
  also have "\<dots> \<le> length data" by (rule div_times_less_eq_dividend)
  finally have "Suc i * (2 * n) \<le> length data" .
  then have "Suc i * n \<le> length data div 2" by simp
  then have in_range: "i * n + c < length f32"
    using c by (simp add: decodeSamples_length [OF smp])
  have cn: "c < numberOfChannels b0" using c p0(1) by simp
  have "channelData b ! c =
          take (length_buf b0) (channelFilter f32 n c)
            @ drop (length (channelFilter f32 n c)) (channelData b0 ! c)"
    using extractChannels_nth [OF ex p0(4) _ cn] c by simp
  moreover have "i < length (channelFilter f32 n c)"
    by (rule channelFilter_nth(1) [OF c in_range])
  moreover have "i < length_buf b0" using i N by simp
  ultimately have "channelData b ! c ! i = channelFilter f32 n c ! i"
    by (simp add: nth_append)
  then show ?thesis
    using in_range channelFilter_nth(2) [OF c in_range] by simp
qed

subsection \<open>An invariant of the engine\<close>

lemma engine_inv_initial: "engine_inv (initialState ps)"
  by (simp add: engine_inv_def initialState_def)

lemma onmessage_recorded_cases:
  "recordedChunks (onmessage now e s) = recordedChunks s \<or>
   (\<exists>b. segmentOf e = Some b \<and> recordedChunks (onmessage now e s) = recordedChunks s @ [b])"
proof (cases "playbackState s = playing \<or> playbackState s = loading")
  case acc: True
  show ?thesis
  proof (cases "audioChunks e")
    case None
    then have "e\<lparr>audioChunks := None\<rparr> = e" by simp
    then show ?thesis using onmessage_noaudio_fields(1) [of now e s] by simp
  next
    case (Some chunks)
    show ?thesis
    proof (cases chunks)
      case Nil
      then show ?thesis using Some by (simp add: onmessage_nochunk onmessage_noaudio_fields)
    next
      case (Cons data rest)
      then have ch: "audioChunks e = Some (data # rest)" using Some by simp
      show ?thesis
      proof (cases "decodeAudioData data 48000 2")
        case (Inl err)
        then show ?thesis
          by (simp add: onmessage_undecodable [OF ch acc Inl] onmessage_noaudio_fields)
      next
        case (Inr b)
        have "segmentOf e = Some b" by (simp add: segmentOf_def ch Inr)
        moreover have "recordedChunks (onmessage now e s) = recordedChunks s @ [b]"
          using acc by (simp add: onmessage_accepted [OF ch acc Inr] onAudioBuffer_recorded
              onmessage_noaudio_fields)
        ultimately show ?thesis by blast
      qed
    qed
  qed
next
  case False
  then have g: "playbackState s = paused \<or> playbackState s = stopped"
    by (cases "playbackState s") simp_all
  show ?thesis
  proof (cases "audioChunks e")
    case None
    then have "e\<lparr>audioChunks := None\<rparr> = e" by simp
    then show ?thesis using onmessage_noaudio_fields(1) [of now e s] by simp
  next
    case (Some chunks)
    then show ?thesis by (simp add: onmessage_gated [OF Some g] onmessage_noaudio_fields)
  qed
qed

lemma segmentOf_props:
  assumes "segmentOf e = Some b"
  shows "wf_buffer b" "numberOfChannels b = 2" "0 < duration b"
proof -
  from assms obtain data where dec: "decodeAudioData data 48000 2 = Inr b"
    by (auto simp: segmentOf_def split: option.splits list.splits sum.splits)
  show "wf_buffer b" "numberOfChannels b = 2" using decodeAudioData_props [OF dec] by simp_all
  show "0 < duration b" by (rule segment_duration [OF dec])
qed

lemma onmessage_cursor_nonneg:
  assumes "0 \<le> now" "0 \<le> nextStartTime s"
  shows "0 \<le> nextStartTime (onmessage now e s)"
proof (cases "playbackState s = playing \<or> playbackState s = loading")
  case acc: True
  show ?thesis
  proof (cases "segmentOf e")
    case None
    then show ?thesis using onmessage_no_segment [OF acc None, of now] assms by simp
  next
    case (Some b)
    show ?thesis
    proof (cases "cursor now s < now")
      case True
      from Some obtain data rest where ch: "audioChunks e = Some (data # rest)"
        and dec: "decodeAudioData data 48000 2 = Inr b"
        by (auto simp: segmentOf_def split: option.splits list.splits sum.splits)
      have "cursor now (emit (DecodeAudioData data) (onmessage now (e\<lparr>audioChunks := None\<rparr>) s)) < now"
        using True by simp
      from onAudioBuffer_underrun(2) [OF this, of b] show ?thesis
        by (simp add: onmessage_accepted [OF ch acc dec])
    next
      case False
      have "0 \<le> cursor now s" using assms by (simp add: cursor_def bufferTime_def)
      then show ?thesis
        using onmessage_segment(3) [OF acc Some False] segmentOf_props(3) [OF Some] by simp
    qed
  qed
next
  case False
  then have g: "playbackState s = paused \<or> playbackState s = stopped"
    by (cases "playbackState s") simp_all
  show ?thesis
  proof (cases "audioChunks e")
    case None
    then have "e\<lparr>audioChunks := None\<rparr> = e" by simp
    then show ?thesis using onmessage_noaudio_fields(2) [of now e s] assms by simp
  next
    case (Some chunks)
    then show ?thesis using assms by (simp add: onmessage_gated [OF Some g] onmessage_noaudio_fields)
  qed
qed

lemma engine_inv_onmessage:
  assumes "0 \<le> now" "engine_inv s"
  shows "engine_inv (onmessage now e s)"
proof -
  have 1: "0 \<le> nextStartTime (onmessage now e s)"
    using assms by (simp add: engine_inv_def onmessage_cursor_nonneg)
  have 2: "list_all (\<lambda>x. wf_buffer x \<and> numberOfChannels x = 2) (recordedChunks (onmessage now e s))"
    using onmessage_recorded_cases [of now e s] assms(2) segmentOf_props(1,2)
    by (auto simp: engine_inv_def)
  show ?thesis using 1 2 by (simp add: engine_inv_def)
qed

lemma engine_inv_controls:
  assumes "engine_inv s"
  shows "engine_inv (leadTimerFired now s)" "engine_inv (pauseAudio s)" "engine_inv (loadAudio s)"
    "engine_inv (stopAudio s)" "engine_inv (setSessionPrompts t s)"
    "engine_inv (handlePromptChanged t d s)"
  using assms
  by (simp_all add: engine_inv_def leadTimerFired_def pauseAudio_def loadAudio_def stopAudio_def
      setSessionPrompts_def throttle_def setSessionPrompts_body_def handlePromptChanged_def
      Let_def split: prod.splits)

lemma engine_inv_reset:
  "engine_inv s \<Longrightarrow> handleReset ok t s = Some s' \<Longrightarrow> engine_inv s'"
  by (auto simp: handleReset_def connectToSession_def engine_inv_def Let_def pauseAudio_def
      split: if_splits option.splits)

lemma engine_inv_playPause:
  assumes "engine_inv s" "handlePlayPause ok t s = Some s'"
  shows "engine_inv s'"
proof -
  have c: "engine_inv (emit Connect s)" using assms(1) by (simp add: engine_inv_def)
  show ?thesis
    using assms(2) engine_inv_controls [OF assms(1)] engine_inv_controls(3) [OF engine_inv_controls(5) [OF c]]
    by (auto simp: handlePlayPause_def connectToSession_def split: if_splits)
qed

lemma engine_inv_onmessage_f64:
  assumes "0 \<le> now" "engine_inv s"
  shows "engine_inv (onmessage_f64 now e s)"
proof (cases "segmentOf e = None \<or> playbackState s = paused \<or> playbackState s = stopped")
  case True
  then have "onmessage_f64 now e s = onmessage now e s" by (rule onmessage_f64_other)
  then show ?thesis using engine_inv_onmessage [OF assms, of e] by simp
next
  case False
  then obtain b where some: "segmentOf e = Some b" by auto
  from False have acc: "playbackState s = playing \<or> playbackState s = loading"
    by (cases "playbackState s") simp_all
  note f = onmessage_f64_segment [OF acc some, of now]
  have nn: "0 \<le> nextStartTime s" using assms(2) by (simp add: engine_inv_def)
  have "0 \<le> fadd now 2" using assms(1) unfolding fadd_def by (intro toDouble_nonneg) simp
  then have c: "0 \<le> cursor_f64 now s" using nn by (simp add: cursor_f64_def bufferTime_def)
  have "0 \<le> cursor_f64 now s + duration_f64 b" using c duration_f64_nonneg [of b] by linarith
  then have adv: "0 \<le> fadd (cursor_f64 now s) (duration_f64 b)"
    unfolding fadd_def by (rule toDouble_nonneg)
  have 1: "0 \<le> nextStartTime (onmessage_f64 now e s)"
    using f(1,2) adv by (cases "cursor_f64 now s < now") simp_all
  have 2: "list_all (\<lambda>x. wf_buffer x \<and> numberOfChannels x = 2) (recordedChunks (onmessage_f64 now e s))"
    using assms(2) segmentOf_props(1,2) [OF some] by (simp add: f(3) engine_inv_def)
  show ?thesis using 1 2 by (simp add: engine_inv_def)
qed

lemma engine_inv_run:
  "engine_inv s \<Longrightarrow> \<forall>ev \<in> set es. 0 \<le> clock ev \<Longrightarrow> engine_inv (run es s)"
proof (induction es arbitrary: s)
  case Nil
  then show ?case by (simp add: run_def)
next
  case (Cons ev es)
  have "engine_inv (step ev s)"
    using Cons.prems by (cases ev) (simp_all add: engine_inv_onmessage_f64 engine_inv_controls)
  then show ?case using Cons by (simp add: run_Cons)
qed

text \<open>The cursor of a run stays a number of the format.\<close>

lemma onmessage_f64_cursor_isDouble:
  assumes "0 \<le> now" and "0 \<le> nextStartTime s" and "isDouble (nextStartTime s)"
  shows "isDouble (nextStartTime (onmessage_f64 now e s))"
proof (cases "segmentOf e = None \<or> playbackState s = paused \<or> playbackState s = stopped")
  case True
  then have eq: "onmessage_f64 now e s = onmessage now e s" by (rule onmessage_f64_other)
  have "nextStartTime (onmessage now e s) = nextStartTime s"
  proof (cases "playbackState s = playing \<or> playbackState s = loading")
    case acc: True
    then have "segmentOf e = None" using True by auto
    from onmessage_no_segment [OF acc this, of now] show ?thesis by blast
  next
    case False
    then have g: "playbackState s = paused \<or> playbackState s = stopped"
      by (cases "playbackState s") simp_all
    show ?thesis
    proof (cases "audioChunks e")
      case None
      then have "e\<lparr>audioChunks := None\<rparr> = e" by simp
      then show ?thesis using onmessage_noaudio_fields(2) [of now e s] by simp
    next
      case (Some chunks)
      then show ?thesis by (simp add: onmessage_gated [OF Some g] onmessage_noaudio_fields)
    qed
  qed
  then show ?thesis using assms(3) by (simp add: eq)
next
  case False
  then obtain b where some: "segmentOf e = Some b" by auto
  from False have acc: "playbackState s = playing \<or> playbackState s = loading"
    by (cases "playbackState s") simp_all
  note f = onmessage_f64_segment(1,2) [OF acc some, of now]
  show ?thesis
  proof (cases "cursor_f64 now s < now")
    case True
    from f(1) [OF True] have "nextStartTime (onmessage_f64 now e s) = 0" by blast
    then show ?thesis by (simp add: isDouble_zero)
  next
    case False
    from f(2) [OF False] have "nextStartTime (onmessage_f64 now e s) =
        fadd (cursor_f64 now s) (duration_f64 b)" by blast
    then show ?thesis using cursor_f64_advance(2) [OF assms, of b] by simp
  qed
qed

lemma cursor_isDouble_run:
  "engine_inv s \<Longrightarrow> isDouble (nextStartTime s) \<Longrightarrow> \<forall>ev \<in> set es. 0 \<le> clock ev \<Longrightarrow>
   isDouble (nextStartTime (run es s))"
proof (induction es arbitrary: s)
  case Nil
  then show ?case by (simp add: run_def)
next
  case (Cons ev es)
  have inv: "engine_inv (step ev s)"
    using Cons.prems by (cases ev) (simp_all add: engine_inv_onmessage_f64 engine_inv_controls)
  have nn: "0 \<le> nextStartTime s" using Cons.prems(1) by (simp add: engine_inv_def)
  have gr: "isDouble (nextStartTime (step ev s))"
    using Cons.prems nn by (cases ev) (simp_all add: onmessage_f64_cursor_isDouble)
  have clk: "\<forall>ev \<in> set es. 0 \<le> clock ev" using Cons.prems(3) by simp
  from Cons.IH [OF inv gr clk] show ?case by (simp only: run_Cons)
qed

subsection \<open>Recovery after an underrun, in double precision\<close>

text \<open>The handler with the sums of the platform recovers from an underrun as the handler
  with the sums in the reals does: the late segment is not started, and the next segment,
  handled at a clock reading that is a number and not negative, starts at the rounded sum
  of that reading and the lead.\<close>

lemma recovery_after_underrun_f64:
  assumes acc: "playbackState s = playing \<or> playbackState s = loading"
    and seg: "segmentOf e = Some b"
    and late: "nextStartTime s \<noteq> 0" "nextStartTime s < now"
    and seg': "segmentOf e' = Some b'"
    and clock: "0 \<le> now'" "isDouble now'"
  shows "playbackState (onmessage_f64 now e s) = loading"
    and "nextStartTime (onmessage_f64 now e s) = 0"
    and "scheduled (onmessage_f64 now e s) = scheduled s"
    and "underruns (onmessage_f64 now e s) = Suc (underruns s)"
    and "scheduled (onmessage_f64 now' e' (fold leadTimerFired ts (onmessage_f64 now e s))) =
           scheduled s @ [(b', fadd now' bufferTime)]"
    and "nextStartTime (onmessage_f64 now' e' (fold leadTimerFired ts (onmessage_f64 now e s))) =
           fadd (fadd now' bufferTime) (duration_f64 b')"
proof -
  let ?s1 = "onmessage_f64 now e s"
  let ?s2 = "fold leadTimerFired ts ?s1"
  have "cursor_f64 now s < now" using late by (simp add: cursor_f64_def)
  note u = onmessage_f64_segment(1) [OF acc seg this]
  show 1: "playbackState ?s1 = loading" using u by blast
  show 2: "nextStartTime ?s1 = 0" using u by blast
  show 3: "scheduled ?s1 = scheduled s" using u by blast
  show "underruns ?s1 = Suc (underruns s)" using u by blast
  have acc2: "playbackState ?s2 = playing \<or> playbackState ?s2 = loading"
    by (rule fold_leadTimer_accepting) (simp add: 1)
  have n2: "nextStartTime ?s2 = 0" by (simp only: fold_leadTimer 2)
  have s2: "scheduled ?s2 = scheduled s" by (simp only: fold_leadTimer 3)
  have cur: "cursor_f64 now' ?s2 = fadd now' bufferTime"
    using n2 by (simp add: cursor_f64_def)
  have "now' \<le> fadd now' bufferTime"
  proof (cases "now' = 0")
    case True
    then show ?thesis by (simp add: bufferTime_def fadd_def toDouble_2)
  next
    case False
    then have "0 < now'" using clock(1) by simp
    with clock(2) show ?thesis by (rule fadd_ge) (simp add: bufferTime_def)
  qed
  then have "\<not> cursor_f64 now' ?s2 < now'" by (simp add: cur)
  note st = onmessage_f64_segment(2) [OF acc2 seg' this]
  show "scheduled (onmessage_f64 now' e' ?s2) = scheduled s @ [(b', fadd now' bufferTime)]"
    using st by (simp only: cur s2)
  show "nextStartTime (onmessage_f64 now' e' ?s2) = fadd (fadd now' bufferTime) (duration_f64 b')"
    using st by (simp only: cur)
qed

subsection \<open>An underrun decided by the rounding\<close>

lemma onmessage_f64_on_time:
  assumes acc: "playbackState s = playing \<or> playbackState s = loading"
    and seg: "segmentOf e = Some b"
    and c: "nextStartTime s = c" "c \<noteq> 0" "\<not> c < now"
  shows "nextStartTime (onmessage_f64 now e s) = fadd c (duration_f64 b)"
    and "playbackState (onmessage_f64 now e s) = playbackState s"
    and "underruns (onmessage_f64 now e s) = underruns s"
proof -
  have cur: "cursor_f64 now s = c" using c(1,2) by (simp add: cursor_f64_def)
  then have "\<not> cursor_f64 now s < now" using c(3) by simp
  note a = onmessage_f64_segment(2) [OF acc seg this]
  show "nextStartTime (onmessage_f64 now e s) = fadd c (duration_f64 b)"
    using a cur by simp
  show "playbackState (onmessage_f64 now e s) = playbackState s" using a by blast
  show "underruns (onmessage_f64 now e s) = underruns s" using a by blast
qed

lemma onmessage_f64_late:
  assumes acc: "playbackState s = playing \<or> playbackState s = loading"
    and seg: "segmentOf e = Some b"
    and c: "nextStartTime s = c" "c \<noteq> 0" "c < now"
  shows "underruns (onmessage_f64 now e s) = Suc (underruns s)"
proof -
  have "cursor_f64 now s = c" using c(1,2) by (simp add: cursor_f64_def)
  then have "cursor_f64 now s < now" using c(3) by simp
  from onmessage_f64_segment(1) [OF acc seg this] show ?thesis by blast
qed

lemma duration_f64_silent: "duration_f64 silentFrame = 6148914691236517 / 2 ^ 68"
  by (simp add: duration_f64_def silentFrame_def toDouble_frame)

text \<open>Three segments of one frame, handled at the clock readings 0, 1 and 2, leave the
  cursor at 2.0000624999999994, one unit in the last place below 2.0000625, the number
  nearest to 2 + 3 / 48000. A fourth segment handled at the reading 2.0000625 is late and
  logs an underrun, though 2 + 3 / 48000 is not below that reading.\<close>

lemma rounding_decides_underrun:
  "underruns (run [Message 0 silentMessage, Message 1 silentMessage, Message 2 silentMessage,
                   Message (4503740364858851 / 2 ^ 51) silentMessage]
                ((initialState [])\<lparr>playbackState := loading\<rparr>)) =
     Suc (underruns ((initialState [])\<lparr>playbackState := loading\<rparr>)) \<and>
   toDouble (96003 / 48000) = 4503740364858851 / 2 ^ 51 \<and>
   \<not> (2 + 3 / 48000 < (4503740364858851 / 2 ^ 51 :: real))"
proof -
  let ?s = "(initialState [])\<lparr>playbackState := loading\<rparr>"
  let ?t = "4503740364858851 / 2 ^ 51 :: real"
  let ?c1 = "4503646539866614 / 2 ^ 51 :: real"
  let ?c2 = "4503693452362732 / 2 ^ 51 :: real"
  let ?c3 = "4503740364858850 / 2 ^ 51 :: real"
  let ?s1 = "onmessage_f64 0 silentMessage ?s"
  let ?s2 = "onmessage_f64 1 silentMessage ?s1"
  let ?s3 = "onmessage_f64 2 silentMessage ?s2"
  have acc: "playbackState ?s = playing \<or> playbackState ?s = loading" by simp
  have c0: "cursor_f64 0 ?s = 2"
    by (simp add: cursor_f64_def initialState_def bufferTime_def fadd_def toDouble_2)
  then have "\<not> cursor_f64 0 ?s < 0" by simp
  note a1 = onmessage_f64_segment(2) [OF acc segmentOf_silent this]
  have "nextStartTime ?s1 = fadd (cursor_f64 0 ?s) (duration_f64 silentFrame)" using a1 by blast
  then have n1: "nextStartTime ?s1 = ?c1" by (simp only: c0 duration_f64_silent fadd_2_frame)
  have "playbackState ?s1 = playbackState ?s" using a1 by blast
  then have acc1: "playbackState ?s1 = playing \<or> playbackState ?s1 = loading" by simp
  have u1: "underruns ?s1 = underruns ?s" using a1 by blast
  have z1: "?c1 \<noteq> 0" "\<not> ?c1 < 1" by simp_all
  note a2 = onmessage_f64_on_time [OF acc1 segmentOf_silent n1 z1]
  have n2: "nextStartTime ?s2 = ?c2" using a2(1) by (simp only: duration_f64_silent fadd_frame_frame)
  have acc2: "playbackState ?s2 = playing \<or> playbackState ?s2 = loading"
    using acc1 by (simp only: a2(2))
  have z2: "?c2 \<noteq> 0" "\<not> ?c2 < 2" by simp_all
  note a3 = onmessage_f64_on_time [OF acc2 segmentOf_silent n2 z2]
  have n3: "nextStartTime ?s3 = ?c3"
    using a3(1) by (simp only: duration_f64_silent fadd_frame_frame_frame)
  have acc3: "playbackState ?s3 = playing \<or> playbackState ?s3 = loading"
    using acc2 by (simp only: a3(2))
  have z3: "?c3 \<noteq> 0" "?c3 < ?t" by simp_all
  have "underruns (onmessage_f64 ?t silentMessage ?s3) = Suc (underruns ?s3)"
    by (rule onmessage_f64_late [OF acc3 segmentOf_silent n3 z3])
  then have 1: "underruns (run [Message 0 silentMessage, Message 1 silentMessage,
                   Message 2 silentMessage, Message ?t silentMessage] ?s) = Suc (underruns ?s)"
    by (simp add: run_def a3(3) a2(3) u1)
  have 2: "\<not> (2 + 3 / 48000 < ?t)" by simp
  show ?thesis
    by (intro conjI) (fact 1 toDouble_three_frames 2)+
qed

section \<open>The claims about the playback engine\<close>

subsection \<open>Gapless scheduling\<close>

text \<open>
  Claim C1: take any run of inbound messages and lead-timer firings that starts in state
  \<open>playing\<close> or \<open>loading\<close> and logs no underrun, where the clock readings are not negative,
  the cursor \<open>nextStartTime\<close> is a number that is not negative, and the cursor stays in the
  finite range of the numbers. Then the segments it carries are started in arrival order;
  the first starts at the cursor (the clock reading plus the lead when the cursor is 0);
  each next one starts exactly where the previous one ends, its start time being the
  previous start time plus the previous duration, and never before the previous start
  time; and the cursor ends at the first start time with the durations added one after
  the other. Start times, durations and sums are the numbers that the program computes:
  each duration and each sum is rounded to the nearest binary64 value.
\<close>

theorem gapless_scheduling:
  assumes "playbackState s = playing \<or> playbackState s = loading"
    and "0 \<le> nextStartTime s"
    and "isDouble (nextStartTime s)"
    and "\<forall>ev \<in> set es. 0 \<le> clock ev"
    and "underruns (run es s) = underruns s"
    and "nextStartTime (run es s) < 2 ^ 1024"
  shows "map fst (newlyScheduled s es) = map snd (segments es) \<and>
         map snd (newlyScheduled s es) =
           gapless (startCursor s es) (map (\<lambda>p. duration_f64 (snd p)) (segments es)) \<and>
         nextStartTime (run es s) =
           foldl fadd (startCursor s es) (map (\<lambda>p. duration_f64 (snd p)) (segments es)) \<and>
         (\<forall>k. Suc k < length (newlyScheduled s es) \<longrightarrow>
            snd (newlyScheduled s es ! Suc k) =
              fadd (snd (newlyScheduled s es ! k)) (duration_f64 (fst (newlyScheduled s es ! k))) \<and>
            snd (newlyScheduled s es ! k) \<le> snd (newlyScheduled s es ! Suc k))"
proof -
  let ?A = "map snd (segments es)"
  let ?ds = "map (\<lambda>p. duration_f64 (snd p)) (segments es)"
  let ?G = "gapless (startCursor s es) ?ds"
  note rs = run_schedule [OF assms(1-5)]
  have new: "newlyScheduled s es = zip ?A ?G"
    using rs by (simp add: newlyScheduled_def)
  have len: "length ?A = length ?G" by simp
  have 1: "map fst (newlyScheduled s es) = ?A"
    unfolding new using len by (rule map_fst_zip)
  have 2: "map snd (newlyScheduled s es) = ?G"
    unfolding new using len by (rule map_snd_zip)
  have 3: "snd (newlyScheduled s es ! Suc k) =
              fadd (snd (newlyScheduled s es ! k)) (duration_f64 (fst (newlyScheduled s es ! k))) \<and>
            snd (newlyScheduled s es ! k) \<le> snd (newlyScheduled s es ! Suc k)"
    if k: "Suc k < length (newlyScheduled s es)" for k
  proof -
    have kl: "Suc k < length ?ds" using k by (simp add: new)
    then have ne: "segments es \<noteq> []" by auto
    note sc = startCursor_props [OF assms(2,3,4) ne]
    have nonneg: "\<forall>d \<in> set ?ds. 0 \<le> d" by (auto simp: duration_f64_nonneg)
    have "?G ! Suc k = fadd (?G ! k) (?ds ! k)" using kl by (rule gapless_nth)
    moreover have "?ds ! k = duration_f64 (?A ! k)" using kl by simp
    moreover have "?G ! k \<le> ?G ! Suc k" using sc(2,1) nonneg kl by (rule gapless_sorted)
    ultimately show ?thesis using kl by (simp add: new)
  qed
  have 4: "nextStartTime (run es s) = foldl fadd (startCursor s es) ?ds"
    using rs by blast
  show ?thesis using 1 2 3 4 by blast
qed

theorem gapless_scheduling_witness:
  "playbackState ((initialState [])\<lparr>playbackState := loading\<rparr>) = loading \<and>
   0 \<le> nextStartTime ((initialState [])\<lparr>playbackState := loading\<rparr>) \<and>
   isDouble (nextStartTime ((initialState [])\<lparr>playbackState := loading\<rparr>)) \<and>
   list_all (\<lambda>ev. 0 \<le> clock ev)
     [Message 0 silentMessage, LeadTimer 2, Message 2 silentMessage] \<and>
   underruns (run [Message 0 silentMessage, LeadTimer 2, Message 2 silentMessage]
                ((initialState [])\<lparr>playbackState := loading\<rparr>)) =
     underruns ((initialState [])\<lparr>playbackState := loading\<rparr>) \<and>
   nextStartTime (run [Message 0 silentMessage, LeadTimer 2, Message 2 silentMessage]
                    ((initialState [])\<lparr>playbackState := loading\<rparr>)) < 2 ^ 1024 \<and>
   map snd (newlyScheduled ((initialState [])\<lparr>playbackState := loading\<rparr>)
              [Message 0 silentMessage, LeadTimer 2, Message 2 silentMessage]) =
     [2, 4503646539866614 / 2 ^ 51] \<and>
   nextStartTime (run [Message 0 silentMessage, LeadTimer 2, Message 2 silentMessage]
                    ((initialState [])\<lparr>playbackState := loading\<rparr>)) =
     4503693452362732 / 2 ^ 51 \<and>
   nextStartTime (run [Message 0 silentMessage, LeadTimer 2, Message 2 silentMessage]
                    ((initialState [])\<lparr>playbackState := loading\<rparr>)) < 2 + 2 / 48000"
proof -
  let ?s = "(initialState [])\<lparr>playbackState := loading\<rparr>"
  let ?es = "[Message 0 silentMessage, LeadTimer 2, Message 2 silentMessage]"
  let ?d = "6148914691236517 / 2 ^ 68 :: real"
  let ?c1 = "4503646539866614 / 2 ^ 51 :: real"
  let ?c2 = "4503693452362732 / 2 ^ 51 :: real"
  have acc: "playbackState ?s = playing \<or> playbackState ?s = loading" by simp
  have nn: "0 \<le> nextStartTime ?s" by (simp add: initialState_def)
  have gr: "isDouble (nextStartTime ?s)" by (simp add: initialState_def isDouble_zero)
  have clk: "\<forall>ev \<in> set ?es. 0 \<le> clock ev" by simp
  have d: "duration_f64 silentFrame = ?d"
    by (simp add: duration_f64_def silentFrame_def toDouble_frame)
  let ?s1 = "onmessage_f64 0 silentMessage ?s"
  have c1: "cursor_f64 0 ?s = 2"
    by (simp add: cursor_f64_def initialState_def bufferTime_def fadd_def toDouble_2)
  then have nl1: "\<not> cursor_f64 0 ?s < 0" by simp
  note a1 = onmessage_f64_segment(2) [OF acc segmentOf_silent nl1]
  have "nextStartTime ?s1 = fadd (cursor_f64 0 ?s) (duration_f64 silentFrame)"
    using a1 by blast
  then have n1: "nextStartTime ?s1 = ?c1"
    by (simp only: c1 d fadd_2_frame)
  have u1: "underruns ?s1 = underruns ?s" using a1 by blast
  let ?s2 = "leadTimerFired 2 ?s1"
  have acc2: "playbackState ?s2 = playing \<or> playbackState ?s2 = loading" by simp
  have c2: "cursor_f64 2 ?s2 = ?c1"
    by (simp add: cursor_f64_def n1)
  then have nl2: "\<not> cursor_f64 2 ?s2 < 2" by simp
  note a2 = onmessage_f64_segment(2) [OF acc2 segmentOf_silent nl2]
  have u2: "underruns (onmessage_f64 2 silentMessage ?s2) = underruns ?s2"
    using a2 by blast
  have nu: "underruns (run ?es ?s) = underruns ?s"
    by (simp add: run_def u2 u1)
  have segs: "segments ?es = [(0, silentFrame), (2, silentFrame)]"
    by (simp add: segmentOf_silent)
  have sc: "startCursor ?s ?es = 2"
    unfolding startCursor_def segs by (simp add: c1)
  have "nextStartTime (onmessage_f64 2 silentMessage ?s2) =
          fadd (cursor_f64 2 ?s2) (duration_f64 silentFrame)"
    using a2 by blast
  then have n2: "nextStartTime (onmessage_f64 2 silentMessage ?s2) = ?c2"
    by (simp only: c2 d fadd_frame_frame)
  have fin: "nextStartTime (run ?es ?s) = ?c2"
    by (simp add: run_def n2)
  have small: "?c2 < 2 ^ 1024" by simp
  have bound: "nextStartTime (run ?es ?s) < 2 ^ 1024" by (simp only: fin small)
  note g = gapless_scheduling [OF acc nn gr clk nu bound]
  have m: "map snd (newlyScheduled ?s ?es) =
             gapless (startCursor ?s ?es) (map (\<lambda>p. duration_f64 (snd p)) (segments ?es))"
    using g by blast
  have n: "nextStartTime (run ?es ?s) =
             foldl fadd (startCursor ?s ?es) (map (\<lambda>p. duration_f64 (snd p)) (segments ?es))"
    using g by blast
  have m': "map snd (newlyScheduled ?s ?es) = [2, ?c1]"
    unfolding m segs sc by (simp only: list.map snd_conv gapless.simps d fadd_2_frame)
  have n': "nextStartTime (run ?es ?s) = ?c2"
    unfolding n segs sc by (simp only: list.map snd_conv foldl.simps d fadd_2_frame fadd_frame_frame)
  have lt: "nextStartTime (run ?es ?s) < 2 + 2 / 48000"
    unfolding n' by simp
  have p: "playbackState ?s = loading" by simp
  have la: "list_all (\<lambda>ev. 0 \<le> clock ev) ?es" by simp
  show ?thesis
    by (intro conjI) (fact p nn gr la nu bound m' n' lt)+
qed

subsection \<open>Underrun recovery\<close>



subsection \<open>Gating\<close>

text \<open>
  Claim C3 (as the code has it): a message with audio chunks that arrives while the state is
  \<open>paused\<close> or \<open>stopped\<close> is dropped before the decoder is called: nothing is decoded,
  nothing is started, the capture log and the cursor are unchanged. While the state is
  \<open>playing\<close> or \<open>loading\<close>, the first chunk is handed to the decoder, and a segment that
  decodes is appended to the capture log and handed to the scheduling code.
\<close>

theorem message_gating:
  assumes "audioChunks e = Some (data # rest)"
  shows "(playbackState s = paused \<or> playbackState s = stopped \<longrightarrow>
            decoded (onmessage now e s) = decoded s \<and>
            scheduled (onmessage now e s) = scheduled s \<and>
            recordedChunks (onmessage now e s) = recordedChunks s \<and>
            nextStartTime (onmessage now e s) = nextStartTime s) \<and>
         (playbackState s = playing \<or> playbackState s = loading \<longrightarrow>
            decoded (onmessage now e s) = decoded s @ [data] \<and>
            (\<forall>b. decodeAudioData data 48000 2 = Inr b \<longrightarrow>
               recordedChunks (onmessage now e s) = recordedChunks s @ [b] \<and>
               onmessage now e s =
                 onAudioBuffer now b
                   (emit (DecodeAudioData data) (onmessage now (e\<lparr>audioChunks := None\<rparr>) s))))"
proof (intro conjI impI allI)
  assume g: "playbackState s = paused \<or> playbackState s = stopped"
  note eq = onmessage_gated [OF assms g, of now]
  show "decoded (onmessage now e s) = decoded s" by (simp only: eq onmessage_noaudio_fields)
  show "scheduled (onmessage now e s) = scheduled s" by (simp only: eq onmessage_noaudio_fields)
  show "recordedChunks (onmessage now e s) = recordedChunks s" by (simp only: eq onmessage_noaudio_fields)
  show "nextStartTime (onmessage now e s) = nextStartTime s" by (simp only: eq onmessage_noaudio_fields)
next
  assume a: "playbackState s = playing \<or> playbackState s = loading"
  show "decoded (onmessage now e s) = decoded s @ [data]"
  proof (cases "decodeAudioData data 48000 2")
    case (Inl err)
    show ?thesis
      by (simp add: onmessage_undecodable [OF assms a Inl] onmessage_noaudio_fields)
  next
    case (Inr b)
    show ?thesis
      by (cases "cursor now s < now")
         (simp_all add: onmessage_accepted [OF assms a Inr] onAudioBuffer_underrun onAudioBuffer_start
            onmessage_noaudio_fields)
  qed
next
  fix b assume a: "playbackState s = playing \<or> playbackState s = loading"
    and d: "decodeAudioData data 48000 2 = Inr b"
  show "onmessage now e s =
          onAudioBuffer now b (emit (DecodeAudioData data) (onmessage now (e\<lparr>audioChunks := None\<rparr>) s))"
    by (rule onmessage_accepted [OF assms a d])
  then show "recordedChunks (onmessage now e s) = recordedChunks s @ [b]"
    using a by (simp add: onAudioBuffer_recorded onmessage_noaudio_fields)
qed

theorem message_gating_witness:
  "audioChunks silentMessage = Some ([0, 0, 0, 0] # []) \<and>
   playbackState (initialState []) = stopped \<and>
   decoded (onmessage 0 silentMessage (initialState [])) = decoded (initialState []) \<and>
   recordedChunks (onmessage 0 silentMessage (initialState [])) = [] \<and>
   playbackState ((initialState [])\<lparr>playbackState := loading\<rparr>) = loading \<and>
   decodeAudioData [0, 0, 0, 0] 48000 2 = Inr silentFrame \<and>
   decoded (onmessage 0 silentMessage ((initialState [])\<lparr>playbackState := loading\<rparr>)) =
     [[0, 0, 0, 0]] \<and>
   recordedChunks (onmessage 0 silentMessage ((initialState [])\<lparr>playbackState := loading\<rparr>)) =
     [silentFrame]"
proof -
  have ch: "audioChunks silentMessage = Some ([0, 0, 0, 0] # [])"
    by (simp add: silentMessage_def)
  have dec: "decodeAudioData [0, 0, 0, 0] 48000 2 = Inr silentFrame"
    by (simp add: decodeAudioData_one_frame w16_zero silentFrame_def)
  have st: "playbackState (initialState []) = stopped" by (simp add: initialState_def)
  have e: "decoded (initialState []) = []" "recordedChunks (initialState []) = []"
    by (simp_all add: initialState_def decoded_def List.map_filter_def)
  have e': "decoded ((initialState [])\<lparr>playbackState := loading\<rparr>) = []"
    "recordedChunks ((initialState [])\<lparr>playbackState := loading\<rparr>) = []"
    by (simp_all add: initialState_def decoded_def List.map_filter_def)
  note g0 = message_gating [OF ch, of "initialState []" 0]
  note g1 = message_gating [OF ch, of "(initialState [])\<lparr>playbackState := loading\<rparr>" 0]
  have ld: "playbackState ((initialState [])\<lparr>playbackState := loading\<rparr>) = loading" by simp
  have 1: "decoded (onmessage 0 silentMessage (initialState [])) = decoded (initialState [])"
    "recordedChunks (onmessage 0 silentMessage (initialState [])) = recordedChunks (initialState [])"
    using g0 st by blast+
  have 2: "decoded (onmessage 0 silentMessage ((initialState [])\<lparr>playbackState := loading\<rparr>)) =
             decoded ((initialState [])\<lparr>playbackState := loading\<rparr>) @ [[0, 0, 0, 0]]"
    "recordedChunks (onmessage 0 silentMessage ((initialState [])\<lparr>playbackState := loading\<rparr>)) =
       recordedChunks ((initialState [])\<lparr>playbackState := loading\<rparr>) @ [silentFrame]"
    using g1 ld dec by blast+
  show ?thesis
    by (intro conjI) (simp_all only: ch dec st ld 1 2 e e' append_Nil)
qed

text \<open>The claim as stated has the chunk of such a message decoded; for a message that
  arrives in state \<open>stopped\<close> the decoder is not called.\<close>

theorem gated_message_not_decoded_counterexample:
  "playbackState (initialState []) = stopped \<and>
   audioChunks silentMessage = Some [[0, 0, 0, 0]] \<and>
   decoded (onmessage 0 silentMessage (initialState [])) = []"
  by (simp add: onmessage_def initialState_def silentMessage_def decoded_def List.map_filter_def)

subsection \<open>Throttled reconfiguration\<close>

text \<open>
  Claim C5 (as the code has it): when a prompt change arrives at least 200 ms after the last
  submission and further prompt changes follow less than 200 ms after it, exactly one
  submission is made to the session, at the first change, and it carries the prompts as they
  are after the first change; the later changes of the window update the prompts but are
  not submitted.
\<close>

theorem throttled_prompt_changes:
  assumes "200 \<le> t1 - lastCall_setSessionPrompts s"
    and "\<forall>(t, d) \<in> set rs. t - t1 < 200"
  shows "submissions (promptChanges ((t1, d1) # rs) s) =
           submissions s @ [promptsToSend (handlePromptChanged t1 d1 s)]"
proof -
  let ?s1 = "handlePromptChanged t1 d1 s"
  note h = handlePromptChanged_pass [OF assms(1), of d1]
  have "\<forall>(t, d) \<in> set rs. t - lastCall_setSessionPrompts ?s1 < 200"
    using assms(2) by (simp add: h(2))
  from promptChanges_window [OF this] have "submissions (promptChanges rs ?s1) = submissions ?s1"
    by simp
  then show ?thesis by (simp add: promptChanges_def h(1))
qed

theorem throttled_prompt_changes_witness:
  "200 \<le> 1000 - lastCall_setSessionPrompts
      (initialState [(''0'', \<lparr>promptId = Some ''0'', text' = ''Funk'', weight = 1, color = ''red''\<rparr>)]) \<and>
   list_all (\<lambda>(t, d). t - 1000 < 200)
     [(1010, ''0'', ''Funk'', 2 / 10, ''red''), (1020, ''0'', ''Funk'', 3 / 10, ''red''),
      (1030, ''0'', ''Funk'', 4 / 10, ''red''), (1040 :: int, ''0'', ''Funk'', 5 / 10 :: real, ''red'')] \<and>
   submissions (promptChanges
      [(1000, ''0'', ''Funk'', 1 / 10, ''red''), (1010, ''0'', ''Funk'', 2 / 10, ''red''),
       (1020, ''0'', ''Funk'', 3 / 10, ''red''), (1030, ''0'', ''Funk'', 4 / 10, ''red''),
       (1040, ''0'', ''Funk'', 5 / 10, ''red'')]
      (initialState [(''0'', \<lparr>promptId = Some ''0'', text' = ''Funk'', weight = 1, color = ''red''\<rparr>)]))
   = [[\<lparr>promptId = Some ''0'', text' = ''Funk'', weight = 1 / 10, color = ''red''\<rparr>]]"
proof -
  let ?s = "initialState [(''0'', \<lparr>promptId = Some ''0'', text' = ''Funk'', weight = 1, color = ''red''\<rparr>)]"
  let ?rs = "[(1010, ''0'', ''Funk'', 2 / 10, ''red''), (1020, ''0'', ''Funk'', 3 / 10, ''red''),
       (1030, ''0'', ''Funk'', 4 / 10, ''red''), (1040::int, ''0'', ''Funk'', 5 / 10 :: real, ''red'')]"
  have h1: "200 \<le> 1000 - lastCall_setSessionPrompts ?s" by (simp add: initialState_def)
  have h2: "\<forall>(t, d) \<in> set ?rs. t - 1000 < 200" by simp
  have h2': "list_all (\<lambda>(t, d). t - 1000 < 200) ?rs" by simp
  have sub: "submissions ?s = []" by (simp add: submissions_def initialState_def List.map_filter_def)
  have pay: "promptsToSend (handlePromptChanged 1000 (''0'', ''Funk'', 1 / 10, ''red'') ?s) =
               [\<lparr>promptId = Some ''0'', text' = ''Funk'', weight = 1 / 10, color = ''red''\<rparr>]"
    by (simp add: handlePromptChanged_def setSessionPrompts_pass initialState_def promptsToSend_def
        emit_def Let_def)
  from throttled_prompt_changes [OF h1 h2, of "(''0'', ''Funk'', 1 / 10, ''red'')"]
  have main: "submissions (promptChanges ((1000, ''0'', ''Funk'', 1 / 10, ''red'') # ?rs) ?s) =
          [[\<lparr>promptId = Some ''0'', text' = ''Funk'', weight = 1 / 10, color = ''red''\<rparr>]]"
    by (simp only: sub pay append_Nil)
  show ?thesis
    by (intro conjI) (fact h1 h2' main)+
qed

text \<open>The claim as stated has the single submission carry the payload of the last request:
  of five changes of a prompt's weight within 40 ms, from 0.1 up to 0.5, the one submission
  made carries the weight 0.1 of the first and not the weight 0.5 of the last.\<close>

theorem throttle_keeps_first_counterexample:
  "submissions (promptChanges
      [(1000, ''0'', ''Funk'', 1 / 10, ''red''), (1010, ''0'', ''Funk'', 2 / 10, ''red''),
       (1020, ''0'', ''Funk'', 3 / 10, ''red''), (1030, ''0'', ''Funk'', 4 / 10, ''red''),
       (1040, ''0'', ''Funk'', 5 / 10, ''red'')]
      (initialState [(''0'', \<lparr>promptId = Some ''0'', text' = ''Funk'', weight = 1, color = ''red''\<rparr>)]))
   \<noteq> [[\<lparr>promptId = Some ''0'', text' = ''Funk'', weight = 5 / 10, color = ''red''\<rparr>]]"
  by (simp add: promptChanges_def handlePromptChanged_def setSessionPrompts_def throttle_def
      setSessionPrompts_body_def promptsToSend_def emit_def submissions_def initialState_def
      List.map_filter_def Let_def)

subsection \<open>Clearing the capture log\<close>

text \<open>
  Claim C6 (as the code has it): the capture log \<open>recordedChunks\<close> is emptied by
  \<open>loadAudio\<close>, hence by a play request made in state \<open>paused\<close> or \<open>stopped\<close>, which ends
  in state \<open>loading\<close>, and by a reset that completes; \<open>stopAudio\<close> leaves the capture log as
  it is.
\<close>

theorem capture_log_clearing:
  "recordedChunks (loadAudio s) = [] \<and>
   (\<forall>s'. handleReset ok now s = Some s' \<longrightarrow> recordedChunks s' = []) \<and>
   (\<forall>s'. playbackState s = paused \<or> playbackState s = stopped \<longrightarrow>
         handlePlayPause ok now s = Some s' \<longrightarrow>
         recordedChunks s' = [] \<and> playbackState s' = loading) \<and>
   recordedChunks (stopAudio s) = recordedChunks s"
proof (intro conjI allI impI)
  show "recordedChunks (loadAudio s) = []" by (rule loadAudio_clears)
  show "recordedChunks (stopAudio s) = recordedChunks s" by (rule stopAudio_keeps)
  show "recordedChunks s' = []" if "handleReset ok now s = Some s'" for s'
    using that by (rule handleReset_clears)
  show "recordedChunks s' = []" "playbackState s' = loading"
    if "playbackState s = paused \<or> playbackState s = stopped" "handlePlayPause ok now s = Some s'" for s'
    using handlePlayPause_load [OF that] by simp_all
qed

theorem capture_log_clearing_witness:
  "playbackState ((initialState [])\<lparr>recordedChunks := [silentFrame]\<rparr>) = stopped \<and>
   map_option recordedChunks
     (handleReset True 1000 ((initialState [])\<lparr>recordedChunks := [silentFrame]\<rparr>)) = Some [] \<and>
   map_option recordedChunks
     (handlePlayPause True 1000 ((initialState [])\<lparr>recordedChunks := [silentFrame]\<rparr>)) = Some []"
proof -
  let ?s = "(initialState [])\<lparr>recordedChunks := [silentFrame]\<rparr>"
  have st: "playbackState ?s = stopped" by (simp add: initialState_def)
  have "handleReset True 1000 ?s \<noteq> None"
    by (simp add: handleReset_def connectToSession_def Let_def split: option.splits)
  then obtain s1 where s1: "handleReset True 1000 ?s = Some s1" by blast
  have "handlePlayPause True 1000 ?s \<noteq> None"
    by (simp add: handlePlayPause_def connectToSession_def st)
  then obtain s2 where s2: "handlePlayPause True 1000 ?s = Some s2" by blast
  note c = capture_log_clearing [of ?s True 1000]
  have "recordedChunks s1 = []" using c s1 by blast
  moreover have "recordedChunks s2 = []" using c s2 st by blast
  ultimately show ?thesis using st by (simp add: s1 s2)
qed

text \<open>The claim as stated has stop empty the capture log: a stop with one segment captured
  keeps that segment.\<close>

theorem stop_keeps_capture_log_counterexample:
  "recordedChunks (stopAudio ((initialState [])\<lparr>playbackState := loading,
      recordedChunks := [silentFrame]\<rparr>)) = [silentFrame] \<and>
   [silentFrame] \<noteq> []"
  by (simp add: stopAudio_def Let_def initialState_def)

subsection \<open>Decoding with zero channels\<close>

text \<open>
  Claim C9: called with a channel count of zero, \<open>decodeAudioData\<close> should treat the chunk as
  mono and return a one-channel segment with all decoded samples. The source has a branch
  for \<open>numChannels === 0\<close>, but allocates the buffer with that channel count first, which
  the platform refuses: for every chunk the call ends in \<open>NotSupportedError\<close>, and no
  segment is returned.
\<close>

theorem decode_zero_channels_raises:
  "decodeAudioData [0, 0, 0, 0] 48000 0 = Inl NotSupportedError \<and>
   decodeAudioData data rate 0 = Inl NotSupportedError"
  by (intro conjI) (rule decode_zero_channels)+

subsection \<open>Capture before the underrun check\<close>



end
